theory Spec2Isabelle
  imports Complex_Main "HOL-Library.Monad_Syntax"
begin

section \<open>Cost values\<close>

text \<open>
  The solvers are templates over a floating-point cost type (\<^verbatim>\<open>float\<close> or \<^verbatim>\<open>double\<close>).
  A cost is a finite number, one of the two infinities, or a NaN. Finite arithmetic is
  exact here (rounding and overflow to infinity are not modelled); the special values
  follow IEEE 754: \<open>inf - inf\<close> is a NaN, every ordered comparison with a NaN is false,
  and a NaN is not equal to itself. The theorems on the claims are stated where exact
  arithmetic makes no difference: on runs that add and subtract small integers, infinities
  and NaNs only, and on properties that do not depend on the value of a finite sum (a
  status, an untouched buffer, two calls on the same working matrix, the place of a least
  entry). The lemmas on the dual variables of the Crouse solver are the exception, and are
  marked as such.
\<close>

datatype cost = Fin rat | PInf | NInf | NaN

fun cneg :: "cost \<Rightarrow> cost" where
  "cneg (Fin x) = Fin (- x)"
| "cneg PInf = NInf"
| "cneg NInf = PInf"
| "cneg NaN = NaN"

fun cadd :: "cost \<Rightarrow> cost \<Rightarrow> cost" where
  "cadd (Fin x) (Fin y) = Fin (x + y)"
| "cadd (Fin x) PInf = PInf"
| "cadd (Fin x) NInf = NInf"
| "cadd PInf (Fin y) = PInf"
| "cadd PInf PInf = PInf"
| "cadd PInf NInf = NaN"
| "cadd NInf (Fin y) = NInf"
| "cadd NInf NInf = NInf"
| "cadd NInf PInf = NaN"
| "cadd NaN b = NaN"
| "cadd a NaN = NaN"

definition csub :: "cost \<Rightarrow> cost \<Rightarrow> cost" where
  "csub a b = cadd a (cneg b)"

text \<open>\<open>clt a b\<close> is the C++ \<^verbatim>\<open>a < b\<close>, \<open>ceq a b\<close> is \<^verbatim>\<open>a == b\<close>, \<open>cle a b\<close> is \<^verbatim>\<open>a <= b\<close>.\<close>

fun clt :: "cost \<Rightarrow> cost \<Rightarrow> bool" where
  "clt (Fin x) (Fin y) = (x < y)"
| "clt (Fin x) PInf = True"
| "clt NInf (Fin y) = True"
| "clt NInf PInf = True"
| "clt a b = False"

definition ceq :: "cost \<Rightarrow> cost \<Rightarrow> bool" where
  "ceq a b = (a \<noteq> NaN \<and> a = b)"

definition cle :: "cost \<Rightarrow> cost \<Rightarrow> bool" where
  "cle a b = (clt a b \<or> ceq a b)"

section \<open>Index types\<close>

text \<open>
  The Crouse solver is a template over the index type as well. \<^verbatim>\<open>Utils/LAP/RLAP.cpp\<close>
  instantiates it at \<^verbatim>\<open>int\<close>, \<^verbatim>\<open>ASD/Tracking/LAP/RLAP.cpp\<close> at \<^verbatim>\<open>size_t\<close>. An index value
  is an \<open>int\<close> here; \<open>idx_cast\<close> is the conversion of a C++ \<^verbatim>\<open>int\<close> constant to the index
  type (so the sentinel \<^verbatim>\<open>-1\<close> is \<open>2^64 - 1\<close> at \<^verbatim>\<open>size_t\<close>), and \<open>idx_neg\<close> is the
  comparison \<^verbatim>\<open>x < 0\<close> in the index type, which is never true at \<^verbatim>\<open>size_t\<close>. Dimensions and
  loop counters are natural numbers. The product \<^verbatim>\<open>nr * nc\<close> and the offsets \<^verbatim>\<open>i * nc + j\<close> below
  it are computed in the index type: \<open>idx_fits\<close> says that the product is in its range. At
  \<^verbatim>\<open>int\<close> a larger product is a signed overflow, which is undefined behaviour. At \<^verbatim>\<open>size_t\<close> it
  would wrap, but no buffer of \<open>2^64\<close> costs exists for the caller to pass, so every read of
  the matrix is outside what was passed. A call whose product does not fit has the undefined
  outcome.
\<close>

datatype idx_kind = Idx_int | Idx_size_t

fun idx_cast :: "idx_kind \<Rightarrow> int \<Rightarrow> int" where
  "idx_cast Idx_int x = x"
| "idx_cast Idx_size_t x = x mod 2 ^ 64"

fun idx_neg :: "idx_kind \<Rightarrow> int \<Rightarrow> bool" where
  "idx_neg Idx_int x = (x < 0)"
| "idx_neg Idx_size_t x = False"

fun idx_fits :: "idx_kind \<Rightarrow> nat \<Rightarrow> bool" where
  "idx_fits Idx_int n = (int n < 2 ^ 31)"
| "idx_fits Idx_size_t n = (int n < 2 ^ 64)"

text \<open>
  The array offset of an index value. A negative index is out of range; like \<open>xs ! n\<close>
  beyond the length of \<open>xs\<close>, what is read there is left unspecified.
\<close>

definition off :: "int \<Rightarrow> nat" where
  "off i = (if 0 \<le> i then nat i else undefined)"

section \<open>The Crouse solver (CrouseSAP.h)\<close>

definition RECTANGULAR_LSAP_INFEASIBLE :: int where
  "RECTANGULAR_LSAP_INFEASIBLE = - 1"

definition RECTANGULAR_LSAP_INVALID :: int where
  "RECTANGULAR_LSAP_INVALID = - 2"

text \<open>The vectors of \<^verbatim>\<open>solve_rectangular_linear_assignment\<close>, shared with \<^verbatim>\<open>augmenting_path\<close>.\<close>

record sap =
  u :: "cost list"
  v :: "cost list"
  shortestPathCosts :: "cost list"
  path :: "int list"
  col4row :: "int list"
  row4col :: "int list"
  SR :: "bool list"
  SC :: "bool list"
  remaining :: "int list"

text \<open>
  One pass of the \<^verbatim>\<open>for (it = 0; it < num_remaining; it++)\<close> loop of \<^verbatim>\<open>augmenting_path\<close>:
  relax column \<open>j = remaining[it]\<close> through row \<open>i\<close>, then keep the lowest cost seen, an
  unassigned column winning a tie.
\<close>

definition scan_step ::
  "idx_kind \<Rightarrow> nat \<Rightarrow> cost list \<Rightarrow> int \<Rightarrow> cost \<Rightarrow> nat \<Rightarrow> sap \<times> cost \<times> int \<Rightarrow> sap \<times> cost \<times> int" where
  "scan_step k nc costMatrix i minVal it = (\<lambda>(s, lowest, index).
     let j = remaining s ! it;
         r = csub (csub (cadd minVal (costMatrix ! (off i * nc + off j))) (u s ! off i)) (v s ! off j);
         s' = (if clt r (shortestPathCosts s ! off j)
               then s\<lparr>path := (path s)[off j := i],
                      shortestPathCosts := (shortestPathCosts s)[off j := r]\<rparr>
               else s)
     in if clt (shortestPathCosts s' ! off j) lowest \<or>
           (ceq (shortestPathCosts s' ! off j) lowest \<and> row4col s' ! off j = idx_cast k (- 1))
        then (s', shortestPathCosts s' ! off j, int it)
        else (s', lowest, index))"

definition scan_remaining ::
  "idx_kind \<Rightarrow> nat \<Rightarrow> cost list \<Rightarrow> int \<Rightarrow> cost \<Rightarrow> nat \<Rightarrow> sap \<Rightarrow> sap \<times> cost \<times> int" where
  "scan_remaining k nc costMatrix i minVal num_remaining s =
     fold (scan_step k nc costMatrix i minVal) [0..<num_remaining] (s, PInf, idx_cast k (- 1))"

text \<open>
  The \<^verbatim>\<open>while (sink == -1)\<close> loop. The result is the returned sink, the value written to
  \<^verbatim>\<open>*p_minVal\<close> (\<open>None\<close> on the infeasible return, which writes nothing) and the vectors.
\<close>

function find_sink ::
  "idx_kind \<Rightarrow> nat \<Rightarrow> cost list \<Rightarrow> sap \<Rightarrow> int \<Rightarrow> cost \<Rightarrow> nat \<Rightarrow> int \<times> cost option \<times> sap" where
  "find_sink k nc costMatrix s i minVal num_remaining =
     (let scanned = scan_remaining k nc costMatrix i minVal num_remaining
                      (s\<lparr>SR := (SR s)[off i := True]\<rparr>);
          s2 = fst scanned;
          lowest = fst (snd scanned);
          index = snd (snd scanned)
      in if ceq lowest PInf then (idx_cast k (- 1), None, s2)
         else let j = remaining s2 ! off index;
                  s3 = s2\<lparr>SC := (SC s2)[off j := True],
                          remaining := (remaining s2)[off index := remaining s2 ! (num_remaining - 1)]\<rparr>
              in if row4col s2 ! off j = idx_cast k (- 1) then (j, Some lowest, s3)
                 else find_sink k nc costMatrix s3 (row4col s2 ! off j) lowest (num_remaining - 1))"
  by pat_completeness auto
termination
  apply (relation "measure (\<lambda>(k, nc, costMatrix, s, i, minVal, num_remaining). num_remaining)")
   apply simp
  apply (case_tac "num_remaining")
   apply (simp_all add: scan_remaining_def ceq_def)
  done

declare find_sink.simps [simp del]

text \<open>\<^verbatim>\<open>augmenting_path\<close>: refill \<open>remaining\<close> in descending order, clear the scan sets, search.\<close>

definition augmenting_path ::
  "idx_kind \<Rightarrow> nat \<Rightarrow> cost list \<Rightarrow> sap \<Rightarrow> int \<Rightarrow> int \<times> cost option \<times> sap" where
  "augmenting_path k nc costMatrix s i =
     find_sink k nc costMatrix
       (s\<lparr>remaining := fold (\<lambda>it r. r[it := int nc - int it - 1]) [0..<nc] (remaining s),
          SR := replicate (length (SR s)) False,
          SC := replicate (length (SC s)) False,
          shortestPathCosts := replicate (length (shortestPathCosts s)) PInf\<rparr>)
       i (Fin 0) nc"

text \<open>The update of the dual variables after a sink was found with cost \<open>minVal\<close>.\<close>

definition update_duals :: "nat \<Rightarrow> nat \<Rightarrow> nat \<Rightarrow> cost \<Rightarrow> sap \<Rightarrow> sap" where
  "update_duals nr nc curRow minVal s =
     (let s1 = s\<lparr>u := (u s)[curRow := cadd (u s ! curRow) minVal]\<rparr>;
          s2 = fold (\<lambda>i t. if SR t ! i \<and> i \<noteq> curRow
                      then t\<lparr>u := (u t)[i := cadd (u t ! i)
                                (csub minVal (shortestPathCosts t ! off (col4row t ! i)))]\<rparr>
                      else t) [0..<nr] s1
      in fold (\<lambda>j t. if SC t ! j
                 then t\<lparr>v := (v t)[j := csub (v t ! j) (csub minVal (shortestPathCosts t ! j))]\<rparr>
                 else t) [0..<nc] s2)"

text \<open>
  The \<^verbatim>\<open>while (1)\<close> walk back along \<open>path\<close> from the sink. Nothing in the loop itself bounds
  it, so it is a partial function: \<open>None\<close> is a walk that never reaches \<open>curRow\<close>.
\<close>

partial_function (option) augment :: "nat \<Rightarrow> sap \<Rightarrow> int \<Rightarrow> sap option" where
  "augment curRow s j =
     (if path s ! off j = int curRow
      then Some (s\<lparr>row4col := (row4col s)[off j := path s ! off j],
                  col4row := (col4row s)[off (path s ! off j) := j]\<rparr>)
      else augment curRow
             (s\<lparr>row4col := (row4col s)[off j := path s ! off j],
                col4row := (col4row s)[off (path s ! off j) := j]\<rparr>)
             (col4row s ! off (path s ! off j)))"

text \<open>
  The \<^verbatim>\<open>for (curRow = 0; curRow < nr; curRow++)\<close> loop. \<open>Failed st\<close> is the early
  \<^verbatim>\<open>return RECTANGULAR_LSAP_INFEASIBLE\<close>. When \<^verbatim>\<open>augmenting_path\<close> returned without writing
  \<^verbatim>\<open>minVal\<close> and the test \<^verbatim>\<open>sink < 0\<close> still fails, the code goes on to read the
  uninitialised \<^verbatim>\<open>minVal\<close> and then \<^verbatim>\<open>path[sink]\<close> with \<open>sink = -1\<close>: undefined behaviour.
\<close>

datatype rows_result = Matched sap | Failed int | Undefined_rows

fun match_rows ::
  "idx_kind \<Rightarrow> nat \<Rightarrow> nat \<Rightarrow> cost list \<Rightarrow> nat list \<Rightarrow> sap \<Rightarrow> rows_result option" where
  "match_rows k nr nc costMatrix [] s = Some (Matched s)"
| "match_rows k nr nc costMatrix (curRow # rows) s =
     (let found = augmenting_path k nc costMatrix s (int curRow);
          sink = fst found
      in if idx_neg k sink then Some (Failed (idx_cast k RECTANGULAR_LSAP_INFEASIBLE))
         else case fst (snd found) of
                None \<Rightarrow> Some Undefined_rows
              | Some minVal \<Rightarrow>
                  (case augment curRow (update_duals nr nc curRow minVal (snd (snd found))) sink of
                     None \<Rightarrow> None
                   | Some s' \<Rightarrow> match_rows k nr nc costMatrix rows s'))"

text \<open>The transposed working copy: \<^verbatim>\<open>temp[j * nr + i] = costMatrix[i * nc + j]\<close>.\<close>

definition transpose_copy :: "nat \<Rightarrow> nat \<Rightarrow> cost list \<Rightarrow> cost list" where
  "transpose_copy nr nc costMatrix =
     fold (\<lambda>i temp. fold (\<lambda>j temp. temp[j * nr + i := costMatrix ! (i * nc + j)]) [0..<nc] temp)
       [0..<nr] (replicate (nr * nc) (Fin 0))"

text \<open>The C++ \<^verbatim>\<open>a != b\<close> on costs.\<close>

definition cne :: "cost \<Rightarrow> cost \<Rightarrow> bool" where
  "cne a b = (\<not> ceq a b)"

definition has_invalid_entry :: "nat \<Rightarrow> cost list \<Rightarrow> bool" where
  "has_invalid_entry n costMatrix =
     list_ex (\<lambda>i. cne (costMatrix ! i) (costMatrix ! i) \<or> ceq (costMatrix ! i) NInf) [0..<n]"

text \<open>
  \<^verbatim>\<open>argsort_iter\<close>: the indices of a vector ordered by their entries. \<^verbatim>\<open>std::sort\<close> leaves the
  order of equal entries open; the entries of \<open>col4row\<close> it is called on are distinct.
\<close>

definition argsort_iter :: "int list \<Rightarrow> nat list" where
  "argsort_iter xs = sort_key (\<lambda>i. xs ! i) [0..<length xs]"

definition initial_sap :: "idx_kind \<Rightarrow> nat \<Rightarrow> nat \<Rightarrow> sap" where
  "initial_sap k nr nc =
     \<lparr>u = replicate nr (Fin 0), v = replicate nc (Fin 0),
      shortestPathCosts = replicate nc (Fin 0),
      path = replicate nc (idx_cast k (- 1)),
      col4row = replicate nr (idx_cast k (- 1)),
      row4col = replicate nc (idx_cast k (- 1)),
      SR = replicate nr False, SC = replicate nc False,
      remaining = replicate nc 0\<rparr>"

text \<open>
  The result of a call: the returned status with the contents of the output buffers
  \<open>a\<close> and \<open>b\<close>, or undefined behaviour. The option around it is \<open>None\<close> when the call
  does not return.
\<close>

datatype outcome = Returns int "int list" "int list" | Undefined_behaviour

definition write_solution :: "bool \<Rightarrow> nat \<Rightarrow> sap \<Rightarrow> int list \<Rightarrow> int list \<Rightarrow> int list \<times> int list" where
  "write_solution transposed nr s a b =
     (if transposed
      then let order = argsort_iter (col4row s)
           in (fold (\<lambda>i a. a[i := col4row s ! (order ! i)]) [0..<length order] a,
               fold (\<lambda>i b. b[i := int (order ! i)]) [0..<length order] b)
      else (fold (\<lambda>i a. a[i := int i]) [0..<nr] a,
            fold (\<lambda>i b. b[i := col4row s ! i]) [0..<nr] b))"

definition solve_rectangular_linear_assignment ::
  "idx_kind \<Rightarrow> nat \<Rightarrow> nat \<Rightarrow> cost list \<Rightarrow> bool \<Rightarrow> int list \<Rightarrow> int list \<Rightarrow> outcome option" where
  "solve_rectangular_linear_assignment k nr0 nc0 costMatrix0 maximize a b =
     (if nr0 = 0 \<or> nc0 = 0 then Some (Returns 0 a b)
      else if \<not> idx_fits k (nr0 * nc0) then Some Undefined_behaviour
      else
        let transposed = nc0 < nr0;
            temp = (if transposed then transpose_copy nr0 nc0 costMatrix0
                    else take (nr0 * nc0) costMatrix0);
            nr = (if transposed then nc0 else nr0);
            nc = (if transposed then nr0 else nc0);
            costMatrix = (if transposed \<or> maximize
                          then (if maximize then map cneg temp else temp)
                          else costMatrix0)
        in if has_invalid_entry (nr * nc) costMatrix
           then Some (Returns (idx_cast k RECTANGULAR_LSAP_INVALID) a b)
           else case match_rows k nr nc costMatrix [0..<nr] (initial_sap k nr nc) of
                  None \<Rightarrow> None
                | Some Undefined_rows \<Rightarrow> Some Undefined_behaviour
                | Some (Failed st) \<Rightarrow> Some (Returns st a b)
                | Some (Matched s) \<Rightarrow>
                    Some (Returns 0 (fst (write_solution transposed nr s a b))
                                    (snd (write_solution transposed nr s a b))))"

text \<open>The four entry points: \<^verbatim>\<open>Utils/LAP/RLAP.cpp\<close> (\<^verbatim>\<open>int\<close>) and \<^verbatim>\<open>ASD/Tracking/LAP/RLAP.cpp\<close> (\<^verbatim>\<open>size_t\<close>).\<close>

definition solve_rlap :: "nat \<Rightarrow> nat \<Rightarrow> cost list \<Rightarrow> bool \<Rightarrow> int list \<Rightarrow> int list \<Rightarrow> outcome option" where
  "solve_rlap numrows numcols cost maximize rowsol colsol =
     solve_rectangular_linear_assignment Idx_int numrows numcols cost maximize rowsol colsol"

definition solve_rlapf :: "nat \<Rightarrow> nat \<Rightarrow> cost list \<Rightarrow> bool \<Rightarrow> int list \<Rightarrow> int list \<Rightarrow> outcome option" where
  "solve_rlapf numrows numcols cost maximize rowsol colsol =
     solve_rectangular_linear_assignment Idx_int numrows numcols cost maximize rowsol colsol"

definition solve_rlap_size_t :: "nat \<Rightarrow> nat \<Rightarrow> cost list \<Rightarrow> bool \<Rightarrow> int list \<Rightarrow> int list \<Rightarrow> outcome option" where
  "solve_rlap_size_t numrows numcols cost maximize rowsol colsol =
     solve_rectangular_linear_assignment Idx_size_t numrows numcols cost maximize rowsol colsol"

definition solve_rlapf_size_t :: "nat \<Rightarrow> nat \<Rightarrow> cost list \<Rightarrow> bool \<Rightarrow> int list \<Rightarrow> int list \<Rightarrow> outcome option" where
  "solve_rlapf_size_t numrows numcols cost maximize rowsol colsol =
     solve_rectangular_linear_assignment Idx_size_t numrows numcols cost maximize rowsol colsol"


declare augment.simps [code]

section \<open>The Jonker-Volgenant solver (lapjv-core.h, lapjv.cpp)\<close>

text \<open>The C++ \<^verbatim>\<open>a >= b\<close> on costs.\<close>

definition cge :: "cost \<Rightarrow> cost \<Rightarrow> bool" where
  "cge a b = cle b a"

text \<open>\<^verbatim>\<open>std::numeric_limits<cost>::max()\<close> of \<^verbatim>\<open>float\<close> and of \<^verbatim>\<open>double\<close>.\<close>

definition float_max :: cost where
  "float_max = Fin ((2 ^ 24 - 1) * 2 ^ 104)"

definition double_max :: cost where
  "double_max = Fin ((2 ^ 53 - 1) * 2 ^ 971)"

text \<open>
  The index type of \<^verbatim>\<open>rlap\<close> is \<^verbatim>\<open>int\<close>, and its arrays are plain C arrays. Every access is
  checked here: \<open>rd xs i\<close> reads \<^verbatim>\<open>xs[i]\<close> and \<open>wr xs i x\<close> writes it, and both are \<open>None\<close> when
  \<open>i\<close> is negative or not below the length of \<open>xs\<close>; \<open>int32 z\<close> is \<open>None\<close> when the offset
  \<open>z\<close>, computed in \<^verbatim>\<open>int\<close>, is outside the range of \<^verbatim>\<open>int\<close>. In the functions below \<open>None\<close> is
  therefore undefined behaviour. \<open>fold_opt\<close> is a \<^verbatim>\<open>for\<close> loop whose body may fail.
\<close>

definition rd :: "'a list \<Rightarrow> int \<Rightarrow> 'a option" where
  "rd xs i = (if 0 \<le> i \<and> nat i < length xs then Some (xs ! nat i) else None)"

definition wr :: "'a list \<Rightarrow> int \<Rightarrow> 'a \<Rightarrow> 'a list option" where
  "wr xs i x = (if 0 \<le> i \<and> nat i < length xs then Some (xs[nat i := x]) else None)"

definition int32 :: "int \<Rightarrow> int option" where
  "int32 z = (if - (2 ^ 31) \<le> z \<and> z < 2 ^ 31 then Some z else None)"

definition fold_opt :: "('a \<Rightarrow> 'b \<Rightarrow> 'b option) \<Rightarrow> 'a list \<Rightarrow> 'b \<Rightarrow> 'b option" where
  "fold_opt f xs a = fold (\<lambda>x r. Option.bind r (f x)) xs (Some a)"

text \<open>
  The result of a call: what it returns, or undefined behaviour. The option around it is
  \<open>None\<close> when the call does not return.
\<close>

datatype 'a run = Returned 'a | Undefined_run

text \<open>
  \<^verbatim>\<open>find_umins\<close>: minimum and second minimum of \<open>cost[i][j] - v[j]\<close> over the columns, with
  their columns \<open>j1\<close> and \<open>j2\<close>. It reads \<open>v\<close>, and it reads column 0 whatever \<open>dim\<close> is.
\<close>

definition find_umins ::
  "cost \<Rightarrow> nat \<Rightarrow> int \<Rightarrow> cost list \<Rightarrow> cost list \<Rightarrow> (cost \<times> cost \<times> int \<times> int) option" where
  "find_umins cost_max dim' i assign_cost vs =
     do {
       base \<leftarrow> int32 (i * int dim');
       c0 \<leftarrow> rd assign_cost base;
       v0 \<leftarrow> rd vs 0;
       fold_opt (\<lambda>j (umin, usubmin, j1, j2).
                  do {
                    c \<leftarrow> rd assign_cost (base + int j);
                    w \<leftarrow> rd vs (int j);
                    let h = csub c w;
                    Some (if clt h usubmin
                          then (if cge h umin then (umin, h, j1, int j) else (h, umin, int j, j1))
                          else (umin, usubmin, j1, j2))
                  })
         [1..<dim'] (csub c0 v0, cost_max, 0, - 1)
     }"

text \<open>
  The arrays of \<^verbatim>\<open>rlap\<close>; \<open>vj\<close> is its parameter \<^verbatim>\<open>v\<close> (the name \<open>v\<close> is taken by the
  Crouse solver's vector above).
\<close>

record lap =
  free :: "int list"
  numfree :: nat
  collist :: "int list"
  d :: "cost list"
  pred :: "int list"
  rowsol :: "int list"
  colsol :: "int list"
  vj :: "cost list"

text \<open>
  One pass of the \<^verbatim>\<open>while (k < prevnumfree)\<close> loop of the augmenting row reduction, on the
  arrays and the position \<open>k\<close>.
\<close>

definition arr_step :: "cost \<Rightarrow> nat \<Rightarrow> cost list \<Rightarrow> lap \<times> nat \<Rightarrow> (lap \<times> nat) option" where
  "arr_step cost_max dim1 assign_cost = (\<lambda>(s, k).
     do {
       i \<leftarrow> rd (free s) (int k);
       let k1 = k + 1;
       (umin, usubmin, j1, j2) \<leftarrow> find_umins cost_max dim1 i assign_cost (vj s);
       i0 \<leftarrow> rd (colsol s) j1;
       vj1 \<leftarrow> rd (vj s) j1;
       let vj1_new = csub vj1 (csub usubmin umin);
       let vj1_lowers = clt vj1_new vj1;
       (s1, j1', i0') \<leftarrow>
         (if vj1_lowers
          then do { vs \<leftarrow> wr (vj s) j1 vj1_new; Some (s\<lparr>vj := vs\<rparr>, j1, i0) }
          else if 0 \<le> i0
          then do { i2 \<leftarrow> rd (colsol s) j2; Some (s, j2, i2) }
          else Some (s, j1, i0));
       rs \<leftarrow> wr (rowsol s1) i j1';
       cs \<leftarrow> wr (colsol s1) j1' i;
       let s2 = s1\<lparr>rowsol := rs, colsol := cs\<rparr>;
       if 0 \<le> i0'
       then (if vj1_lowers
             then do { fs \<leftarrow> wr (free s2) (int k1 - 1) i0'; Some (s2\<lparr>free := fs\<rparr>, k1 - 1) }
             else do { fs \<leftarrow> wr (free s2) (int (numfree s2)) i0';
                       Some (s2\<lparr>free := fs, numfree := numfree s2 + 1\<rparr>, k1) })
       else Some (s2, k1)
     })"

text \<open>
  The loop itself. A row put back at \<open>k\<close> is scanned again, so nothing in the loop bounds
  the number of passes: \<open>None\<close> is a loop that does not end.
\<close>

partial_function (option) arr_loop ::
  "cost \<Rightarrow> nat \<Rightarrow> cost list \<Rightarrow> nat \<Rightarrow> lap \<times> nat \<Rightarrow> lap run option" where
  "arr_loop cost_max dim1 assign_cost prevnumfree sk =
     (if snd sk < prevnumfree
      then (case arr_step cost_max dim1 assign_cost sk of
              None \<Rightarrow> Some Undefined_run
            | Some sk' \<Rightarrow> arr_loop cost_max dim1 assign_cost prevnumfree sk')
      else Some (Returned (fst sk)))"

declare arr_loop.simps [code]

definition arr_pass :: "cost \<Rightarrow> nat \<Rightarrow> cost list \<Rightarrow> lap \<Rightarrow> lap run option" where
  "arr_pass cost_max dim1 assign_cost s =
     arr_loop cost_max dim1 assign_cost (numfree s) (s\<lparr>numfree := 0\<rparr>, 0)"

text \<open>The state of the shortest-path search for one free row.\<close>

record scan =
  lp :: lap
  low :: nat
  up :: nat
  last' :: int
  min' :: cost
  endofpath :: int
  unassigned_found :: bool

text \<open>
  The start of the search for \<open>freerow\<close>: \<^verbatim>\<open>for (j = 0; j < dim1; j++)\<close> fills \<open>d\<close>, \<open>pred\<close> and
  \<open>collist\<close>.
\<close>

definition init_search :: "nat \<Rightarrow> cost list \<Rightarrow> int \<Rightarrow> lap \<Rightarrow> lap option" where
  "init_search dim1 assign_cost freerow s =
     fold_opt (\<lambda>j s.
                do {
                  z \<leftarrow> int32 (freerow * int dim1 + int j);
                  c \<leftarrow> rd assign_cost z;
                  w \<leftarrow> rd (vj s) (int j);
                  ds \<leftarrow> wr (d s) (int j) (csub c w);
                  ps \<leftarrow> wr (pred s) (int j) freerow;
                  cl \<leftarrow> wr (collist s) (int j) (int j);
                  Some (s\<lparr>d := ds, pred := ps, collist := cl\<rparr>)
                })
       [0..<dim1] s"

text \<open>
  The search for the new minimum when no column is left to scan (\<^verbatim>\<open>up == low\<close>): one pass
  of \<^verbatim>\<open>for (k = up; k < dim1; k++)\<close> on \<open>collist\<close>, \<open>up\<close> and \<open>min\<close>; then the
  \<^verbatim>\<open>for (k = low; k < up; k++)\<close> loop that looks for an unassigned column and stops at the
  first.
\<close>

definition rescan_step ::
  "cost list \<Rightarrow> nat \<Rightarrow> nat \<Rightarrow> int list \<times> nat \<times> cost \<Rightarrow> (int list \<times> nat \<times> cost) option" where
  "rescan_step ds lo k = (\<lambda>(cl, upv, mn).
     do {
       j \<leftarrow> rd cl (int k);
       h \<leftarrow> rd ds j;
       if cle h mn
       then do {
              let up1 = (if clt h mn then lo else upv);
              let mn1 = (if clt h mn then h else mn);
              y \<leftarrow> rd cl (int up1);
              cl1 \<leftarrow> wr cl (int k) y;
              cl2 \<leftarrow> wr cl1 (int up1) j;
              Some (cl2, up1 + 1, mn1)
            }
       else Some (cl, upv, mn)
     })"

fun find_unassigned :: "int list \<Rightarrow> int list \<Rightarrow> nat list \<Rightarrow> int option option" where
  "find_unassigned cs cl [] = Some None"
| "find_unassigned cs cl (k # ks) =
     do {
       j \<leftarrow> rd cl (int k);
       i \<leftarrow> rd cs j;
       if i < 0 then Some (Some j) else find_unassigned cs cl ks
     }"

definition rescan :: "nat \<Rightarrow> scan \<Rightarrow> scan option" where
  "rescan dim1 t =
     do {
       let s = lp t;
       j0 \<leftarrow> rd (collist s) (int (up t));
       mn0 \<leftarrow> rd (d s) j0;
       (cl, upv, mn) \<leftarrow>
         fold_opt (rescan_step (d s) (low t)) [up t + 1..<dim1] (collist s, up t + 1, mn0);
       let t1 = t\<lparr>lp := s\<lparr>collist := cl\<rparr>, up := upv, last' := int (low t) - 1, min' := mn\<rparr>;
       e \<leftarrow> find_unassigned (colsol s) cl [low t..<upv];
       Some (case e of
               None \<Rightarrow> t1
             | Some j \<Rightarrow> t1\<lparr>endofpath := j, unassigned_found := True\<rparr>)
     }"

text \<open>
  One pass of the relaxation loop \<^verbatim>\<open>for (k = up; k < dim1; k++)\<close> through row \<open>i\<close>, whose row of
  the matrix starts at the offset \<open>base\<close>; after the \<^verbatim>\<open>break\<close> the remaining passes do nothing.
\<close>

definition relax_step :: "cost list \<Rightarrow> int \<Rightarrow> int \<Rightarrow> cost \<Rightarrow> nat \<Rightarrow> scan \<Rightarrow> scan option" where
  "relax_step assign_cost base i h k t =
     (if unassigned_found t then Some t
      else do {
             let s = lp t;
             j \<leftarrow> rd (collist s) (int k);
             c \<leftarrow> rd assign_cost (base + j);
             w \<leftarrow> rd (vj s) j;
             let v2 = csub (csub c w) h;
             dj \<leftarrow> rd (d s) j;
             if clt v2 dj
             then do {
                    ps \<leftarrow> wr (pred s) j i;
                    let s1 = s\<lparr>pred := ps\<rparr>;
                    if ceq v2 (min' t)
                    then do {
                           cj \<leftarrow> rd (colsol s1) j;
                           if cj < 0
                           then Some (t\<lparr>lp := s1, endofpath := j, unassigned_found := True\<rparr>)
                           else do {
                                  y \<leftarrow> rd (collist s1) (int (up t));
                                  cl1 \<leftarrow> wr (collist s1) (int k) y;
                                  cl2 \<leftarrow> wr cl1 (int (up t)) j;
                                  ds \<leftarrow> wr (d s1) j v2;
                                  Some (t\<lparr>lp := s1\<lparr>collist := cl2, d := ds\<rparr>, up := up t + 1\<rparr>)
                                }
                         }
                    else do { ds \<leftarrow> wr (d s1) j v2; Some (t\<lparr>lp := s1\<lparr>d := ds\<rparr>\<rparr>) }
                  }
             else Some t
           })"

definition relax :: "nat \<Rightarrow> cost list \<Rightarrow> scan \<Rightarrow> scan option" where
  "relax dim1 assign_cost t =
     do {
       let s = lp t;
       j1 \<leftarrow> rd (collist s) (int (low t));
       i \<leftarrow> rd (colsol s) j1;
       base \<leftarrow> int32 (i * int dim1);
       c \<leftarrow> rd assign_cost (base + j1);
       w \<leftarrow> rd (vj s) j1;
       let h = csub (csub c w) (min' t);
       fold_opt (relax_step assign_cost base i h) [up t..<dim1] (t\<lparr>low := low t + 1\<rparr>)
     }"

text \<open>The body of the \<^verbatim>\<open>do ... while (!unassigned_found)\<close> loop, and the loop.\<close>

definition dijkstra_step :: "nat \<Rightarrow> cost list \<Rightarrow> scan \<Rightarrow> scan option" where
  "dijkstra_step dim1 assign_cost t =
     do {
       t1 \<leftarrow> (if up t = low t then rescan dim1 t else Some t);
       if unassigned_found t1 then Some t1 else relax dim1 assign_cost t1
     }"

partial_function (option) dijkstra_loop :: "nat \<Rightarrow> cost list \<Rightarrow> scan \<Rightarrow> scan run option" where
  "dijkstra_loop dim1 assign_cost t =
     (case dijkstra_step dim1 assign_cost t of
        None \<Rightarrow> Some Undefined_run
      | Some t' \<Rightarrow>
          if unassigned_found t' then Some (Returned t') else dijkstra_loop dim1 assign_cost t')"

declare dijkstra_loop.simps [code]

text \<open>The update of the column prices: \<^verbatim>\<open>for (k = 0; k <= last; k++)\<close>.\<close>

definition update_prices :: "scan \<Rightarrow> lap option" where
  "update_prices t =
     fold_opt (\<lambda>k s.
                do {
                  j1 \<leftarrow> rd (collist s) (int k);
                  w \<leftarrow> rd (vj s) j1;
                  x \<leftarrow> rd (d s) j1;
                  vs \<leftarrow> wr (vj s) j1 (csub (cadd w x) (min' t));
                  Some (s\<lparr>vj := vs\<rparr>)
                })
       [0..<nat (last' t + 1)] (lp t)"

text \<open>
  One pass of the \<^verbatim>\<open>do ... while (i != freerow)\<close> walk that flips the assignments along the
  path: the row \<open>i\<close> it reached, the arrays, and the next \<open>endofpath\<close>. Then the walk.
\<close>

definition flip_step :: "lap \<Rightarrow> int \<Rightarrow> (int \<times> lap \<times> int) option" where
  "flip_step s endofp =
     do {
       i \<leftarrow> rd (pred s) endofp;
       cs \<leftarrow> wr (colsol s) endofp i;
       e \<leftarrow> rd (rowsol s) i;
       rs \<leftarrow> wr (rowsol s) i endofp;
       Some (i, s\<lparr>colsol := cs, rowsol := rs\<rparr>, e)
     }"

partial_function (option) flip_path :: "int \<Rightarrow> lap \<Rightarrow> int \<Rightarrow> lap run option" where
  "flip_path freerow s endofp =
     (case flip_step s endofp of
        None \<Rightarrow> Some Undefined_run
      | Some (i, s', e) \<Rightarrow>
          if i \<noteq> freerow then flip_path freerow s' e else Some (Returned s'))"

declare flip_path.simps [code]

text \<open>
  The augmentation \<^verbatim>\<open>for (f = 0; f < numfree; f++)\<close>. \<^verbatim>\<open>endofpath\<close> is declared without a
  value and is written before the search ends; \<open>- 1\<close> stands for it until then.
\<close>

fun augment_rows :: "nat \<Rightarrow> cost list \<Rightarrow> nat list \<Rightarrow> lap \<Rightarrow> lap run option" where
  "augment_rows dim1 assign_cost [] s = Some (Returned s)"
| "augment_rows dim1 assign_cost (f # fs) s =
     (case rd (free s) (int f) of
        None \<Rightarrow> Some Undefined_run
      | Some freerow \<Rightarrow>
          (case init_search dim1 assign_cost freerow s of
             None \<Rightarrow> Some Undefined_run
           | Some s0 \<Rightarrow>
               (case dijkstra_loop dim1 assign_cost
                       \<lparr>lp = s0, low = 0, up = 0, last' = 0, min' = Fin 0, endofpath = - 1,
                        unassigned_found = False\<rparr> of
                  None \<Rightarrow> None
                | Some Undefined_run \<Rightarrow> Some Undefined_run
                | Some (Returned t) \<Rightarrow>
                    (case update_prices t of
                       None \<Rightarrow> Some Undefined_run
                     | Some s1 \<Rightarrow>
                         (case flip_path freerow s1 (endofpath t) of
                            None \<Rightarrow> None
                          | Some Undefined_run \<Rightarrow> Some Undefined_run
                          | Some (Returned s') \<Rightarrow> augment_rows dim1 assign_cost fs s')))))"

text \<open>
  The last loop of \<^verbatim>\<open>rlap\<close>, \<^verbatim>\<open>for (i = 0; i < dim0; i++)\<close>: it recovers \<open>u\<close> and adds up the
  cost of the assignment.
\<close>

definition total_cost :: "nat \<Rightarrow> nat \<Rightarrow> cost list \<Rightarrow> lap \<Rightarrow> (cost \<times> cost list) option" where
  "total_cost dim0 dim1 assign_cost s =
     fold_opt (\<lambda>i (rlapcost, us).
                do {
                  base \<leftarrow> int32 (int i * int dim1);
                  j \<leftarrow> rd (rowsol s) (int i);
                  c \<leftarrow> rd assign_cost (base + j);
                  w \<leftarrow> rd (vj s) j;
                  Some (cadd rlapcost c, us @ [csub c w])
                })
       [0..<dim0] (Fin 0, [])"

text \<open>
  \<^verbatim>\<open>rlap\<close>. \<open>v_in\<close> is what the array \<^verbatim>\<open>v\<close> holds on entry: the function never initialises
  it and \<^verbatim>\<open>find_umins\<close> reads it in the first pass. The arrays \<open>collist\<close>, \<open>d\<close> and \<open>pred\<close>
  are written in full before they are read. The result is the returned cost with
  \<open>rowsol\<close>, \<open>colsol\<close>, \<open>u\<close> and \<open>v\<close>; \<^verbatim>\<open>verbose\<close> only prints.
\<close>

definition rlap ::
  "cost \<Rightarrow> nat \<Rightarrow> nat \<Rightarrow> cost list \<Rightarrow> bool \<Rightarrow> cost list \<Rightarrow>
     (cost \<times> int list \<times> int list \<times> cost list \<times> cost list) run option" where
  "rlap cost_max dim0 dim1 assign_cost verbose v_in =
     (let s0 = \<lparr>free = map int [0..<dim0], numfree = dim0,
                collist = replicate dim1 0, d = replicate dim1 (Fin 0), pred = replicate dim1 0,
                rowsol = replicate dim0 (- 1), colsol = replicate dim1 (- 1), vj = v_in\<rparr>
      in case arr_pass cost_max dim1 assign_cost s0 of
           None \<Rightarrow> None
         | Some Undefined_run \<Rightarrow> Some Undefined_run
         | Some (Returned s1) \<Rightarrow>
             (case arr_pass cost_max dim1 assign_cost s1 of
                None \<Rightarrow> None
              | Some Undefined_run \<Rightarrow> Some Undefined_run
              | Some (Returned s2) \<Rightarrow>
                  (case augment_rows dim1 assign_cost [0..<numfree s2] s2 of
                     None \<Rightarrow> None
                   | Some Undefined_run \<Rightarrow> Some Undefined_run
                   | Some (Returned s3) \<Rightarrow>
                       (case total_cost dim0 dim1 assign_cost s3 of
                          None \<Rightarrow> Some Undefined_run
                        | Some (rlapcost, us) \<Rightarrow>
                            Some (Returned (rlapcost, rowsol s3, colsol s3, us, vj s3))))))"

text \<open>
  The entry points of \<^verbatim>\<open>lapjv.cpp\<close>. They take the dimensions, the matrix and the two output
  buffers, nothing else; \<^verbatim>\<open>false\<close> is passed for \<^verbatim>\<open>verbose\<close>. The arrays \<^verbatim>\<open>u\<close> and \<^verbatim>\<open>v\<close> come
  from \<^verbatim>\<open>new double[...]\<close>, which leaves their contents indeterminate: \<open>v_alloc\<close> is whatever
  the fresh array \<^verbatim>\<open>v\<close> holds. The result is the returned cost with \<open>solutionRows\<close> and
  \<open>solutionCols\<close>.
\<close>

definition entry_result ::
  "(cost \<times> int list \<times> int list \<times> cost list \<times> cost list) run \<Rightarrow> (cost \<times> int list \<times> int list) run" where
  "entry_result r =
     (case r of
        Undefined_run \<Rightarrow> Undefined_run
      | Returned (rlapcost, rows, cols, us, vs) \<Rightarrow> Returned (rlapcost, rows, cols))"

definition solve_lap ::
  "nat \<Rightarrow> nat \<Rightarrow> cost list \<Rightarrow> cost list \<Rightarrow> (cost \<times> int list \<times> int list) run option" where
  "solve_lap inputDims outputDims cost v_alloc =
     map_option entry_result (rlap double_max inputDims outputDims cost False v_alloc)"

definition solve_lapf ::
  "nat \<Rightarrow> nat \<Rightarrow> cost list \<Rightarrow> cost list \<Rightarrow> (cost \<times> int list \<times> int list) run option" where
  "solve_lapf inputDims outputDims cost v_alloc =
     map_option entry_result (rlap float_max inputDims outputDims cost False v_alloc)"

section \<open>Auxiliary definitions for the proofs\<close>

text \<open>
  The matrix the Crouse solver works on after the transposition and the negation, and
  the way the result of the row loop becomes the result of the call.
\<close>

definition working_matrix :: "nat \<Rightarrow> nat \<Rightarrow> cost list \<Rightarrow> bool \<Rightarrow> cost list" where
  "working_matrix nr nc costMatrix maximize =
     (if nc < nr \<or> maximize
      then (if maximize then map cneg else id)
             (if nc < nr then transpose_copy nr nc costMatrix else take (nr * nc) costMatrix)
      else costMatrix)"

definition finish :: "bool \<Rightarrow> nat \<Rightarrow> int list \<Rightarrow> int list \<Rightarrow> rows_result option \<Rightarrow> outcome option" where
  "finish transposed nr a b r =
     (case r of
        None \<Rightarrow> None
      | Some Undefined_rows \<Rightarrow> Some Undefined_behaviour
      | Some (Failed st) \<Rightarrow> Some (Returns st a b)
      | Some (Matched s) \<Rightarrow>
          Some (Returns 0 (fst (write_solution transposed nr s a b))
                          (snd (write_solution transposed nr s a b))))"

text \<open>The total cost of an assignment given as pairs \<open>(a[i], b[i])\<close>: the sum of \<open>cost[a[i]][b[i]]\<close>.\<close>

definition pairs_cost :: "nat \<Rightarrow> cost list \<Rightarrow> int list \<Rightarrow> int list \<Rightarrow> cost" where
  "pairs_cost nc costMatrix a b =
     fold (\<lambda>i c. cadd c (costMatrix ! (off (a ! i) * nc + off (b ! i)))) [0..<length a] (Fin 0)"

text \<open>
  The vectors after the first \<open>m\<close> rows of the \<open>n \<times> n\<close> matrix with every entry \<open>x\<close> have been
  matched: row \<open>i < m\<close> holds column \<open>i\<close> and has \<open>u[i] = x\<close>, nothing else is assigned, and
  \<open>v\<close> is zero.
\<close>

definition const_inv :: "idx_kind \<Rightarrow> nat \<Rightarrow> rat \<Rightarrow> nat \<Rightarrow> sap \<Rightarrow> bool" where
  "const_inv k n x m s =
     (u s = map (\<lambda>i. if i < m then Fin x else Fin 0) [0..<n] \<and>
      v s = replicate n (Fin 0) \<and>
      col4row s = map (\<lambda>i. if i < m then int i else idx_cast k (- 1)) [0..<n] \<and>
      row4col s = map (\<lambda>i. if i < m then int i else idx_cast k (- 1)) [0..<n] \<and>
      length (path s) = n \<and> length (shortestPathCosts s) = n \<and>
      length (SR s) = n \<and> length (SC s) = n \<and> length (remaining s) = n)"

text \<open>Costs that are finite or \<open>+inf\<close>: the entries of a valid matrix.\<close>

definition ext :: "cost \<Rightarrow> bool" where
  "ext c = (c \<noteq> NaN \<and> c \<noteq> NInf)"

text \<open>The value \<open>r\<close> of \<^verbatim>\<open>augmenting_path\<close> for row \<open>i\<close> and column \<open>j\<close>.\<close>

definition relaxed :: "nat \<Rightarrow> cost list \<Rightarrow> sap \<Rightarrow> nat \<Rightarrow> cost \<Rightarrow> nat \<Rightarrow> cost" where
  "relaxed nc cm s i mv j = csub (csub (cadd mv (cm ! (i * nc + j))) (u s ! i)) (v s ! j)"

text \<open>
  What the scan of the remaining columns \<open>rho 0, ..., rho (t - 1)\<close> through row \<open>i\<close> leaves:
  the frame, the relaxed costs and predecessors, and the lowest cost with its position.
\<close>

definition scan_post ::
  "nat \<Rightarrow> cost list \<Rightarrow> nat \<Rightarrow> cost \<Rightarrow> (nat \<Rightarrow> nat) \<Rightarrow> nat \<Rightarrow> sap \<Rightarrow> sap \<times> cost \<times> int \<Rightarrow> bool" where
  "scan_post nc cm i mv rho t s res =
     (let s' = fst res; lowest = fst (snd res); index = snd (snd res) in
      u s' = u s \<and> v s' = v s \<and> col4row s' = col4row s \<and> row4col s' = row4col s \<and>
      SR s' = SR s \<and> SC s' = SC s \<and> remaining s' = remaining s \<and>
      length (path s') = length (path s) \<and>
      length (shortestPathCosts s') = length (shortestPathCosts s) \<and>
      (\<forall>j<nc. j \<notin> rho ` {..<t} \<longrightarrow>
         shortestPathCosts s' ! j = shortestPathCosts s ! j \<and> path s' ! j = path s ! j) \<and>
      (\<forall>it<t. (if clt (relaxed nc cm s i mv (rho it)) (shortestPathCosts s ! rho it)
                then shortestPathCosts s' ! rho it = relaxed nc cm s i mv (rho it) \<and>
                     path s' ! rho it = int i
                else shortestPathCosts s' ! rho it = shortestPathCosts s ! rho it \<and>
                     path s' ! rho it = path s ! rho it)) \<and>
      ext lowest \<and>
      (\<forall>it<t. \<not> clt (shortestPathCosts s' ! rho it) lowest) \<and>
      (lowest \<noteq> PInf \<longrightarrow> (\<exists>it<t. index = int it \<and> shortestPathCosts s' ! rho it = lowest)))"

text \<open>
  The number in a finite cost, the entry \<open>cost[i][j]\<close> of a matrix with \<open>nc\<close> columns, and
  the finite costs.
\<close>

fun val :: "cost \<Rightarrow> rat" where
  "val (Fin x) = x"
| "val PInf = 0"
| "val NInf = 0"
| "val NaN = 0"

definition cell :: "cost list \<Rightarrow> nat \<Rightarrow> nat \<Rightarrow> nat \<Rightarrow> cost" where
  "cell cm nc i j = cm ! (i * nc + j)"

definition isfin :: "cost \<Rightarrow> bool" where
  "isfin c = (\<exists>x. c = Fin x)"

text \<open>
  The state between two rows: the vectors have their lengths, the duals are finite, the
  rows from \<open>r\<close> on are untouched, and the rows below \<open>r\<close> are matched to distinct columns,
  feasibly and tightly.
\<close>

definition ri_len :: "nat \<Rightarrow> nat \<Rightarrow> sap \<Rightarrow> bool" where
  "ri_len nr nc s =
     (length (u s) = nr \<and> length (v s) = nc \<and> length (shortestPathCosts s) = nc \<and>
      length (path s) = nc \<and> length (col4row s) = nr \<and> length (row4col s) = nc \<and>
      length (SR s) = nr \<and> length (SC s) = nc \<and> length (remaining s) = nc)"

definition ri_fin :: "nat \<Rightarrow> nat \<Rightarrow> sap \<Rightarrow> bool" where
  "ri_fin nr nc s = ((\<forall>i<nr. isfin (u s ! i)) \<and> (\<forall>j<nc. isfin (v s ! j)))"

definition ri_rest :: "idx_kind \<Rightarrow> nat \<Rightarrow> nat \<Rightarrow> sap \<Rightarrow> bool" where
  "ri_rest k nr r s =
     (\<forall>i<nr. r \<le> i \<longrightarrow> u s ! i = Fin 0 \<and> col4row s ! i = idx_cast k (- 1))"

definition ri_match :: "idx_kind \<Rightarrow> nat \<Rightarrow> nat \<Rightarrow> sap \<Rightarrow> bool" where
  "ri_match k nc r s =
     ((\<forall>i<r. \<exists>j<nc. col4row s ! i = int j \<and> row4col s ! j = int i) \<and>
      (\<forall>j<nc. row4col s ! j = idx_cast k (- 1) \<or>
               (\<exists>i<r. row4col s ! j = int i \<and> col4row s ! i = int j)))"

definition ri_feas :: "nat \<Rightarrow> cost list \<Rightarrow> nat \<Rightarrow> sap \<Rightarrow> bool" where
  "ri_feas nc cm r s =
     (\<forall>i<r. \<forall>j<nc. \<forall>c. cell cm nc i j = Fin c \<longrightarrow> val (u s ! i) + val (v s ! j) \<le> c)"

definition ri_tight :: "nat \<Rightarrow> cost list \<Rightarrow> nat \<Rightarrow> sap \<Rightarrow> bool" where
  "ri_tight nc cm r s =
     (\<forall>i<r. \<forall>j<nc. col4row s ! i = int j \<longrightarrow>
               cell cm nc i j = Fin (val (u s ! i) + val (v s ! j)))"

definition row_inv :: "idx_kind \<Rightarrow> nat \<Rightarrow> nat \<Rightarrow> cost list \<Rightarrow> nat \<Rightarrow> sap \<Rightarrow> bool" where
  "row_inv k nr nc cm r s =
     (ri_len nr nc s \<and> ri_fin nr nc s \<and> ri_rest k nr r s \<and> ri_match k nc r s \<and>
      ri_feas nc cm r s \<and> ri_tight nc cm r s)"

text \<open>The distance of a scanned row from \<open>r\<close>: that of the column it holds.\<close>

definition row_dist :: "nat \<Rightarrow> sap \<Rightarrow> nat \<Rightarrow> rat" where
  "row_dist r s i = (if i = r then 0 else val (shortestPathCosts s ! off (col4row s ! i)))"

text \<open>
  The search, when row \<open>i\<close> is about to be scanned with cost \<open>m\<close> and \<open>q\<close> columns
  remaining. The parts: the remaining columns are the unscanned ones; the row \<open>i\<close> is new, and
  is either \<open>r\<close> or the holder of a scanned column of cost \<open>m\<close>; each scanned column costs at
  most \<open>m\<close> and is held by a scanned row; each scanned row but \<open>r\<close> holds a scanned column; each
  unscanned column costs at least \<open>m\<close>; each cost is relaxed through every scanned row and
  is attained through its predecessor; and the rows were scanned in an order in which the
  predecessor of a scanned column comes before its holder.
\<close>

definition si_cols :: "nat \<Rightarrow> sap \<Rightarrow> nat \<Rightarrow> bool" where
  "si_cols nc s q =
     (\<exists>rho. (\<forall>it<q. remaining s ! it = int (rho it) \<and> rho it < nc) \<and> inj_on rho {..<q} \<and>
            rho ` {..<q} = {j. j < nc \<and> \<not> SC s ! j})"

definition si_cur :: "nat \<Rightarrow> nat \<Rightarrow> nat \<Rightarrow> sap \<Rightarrow> nat \<Rightarrow> rat \<Rightarrow> bool" where
  "si_cur nr nc r s i m =
     ((i = r \<and> m = 0 \<and> (\<forall>j<nc. \<not> SC s ! j) \<and> (\<forall>i'<nr. \<not> SR s ! i')) \<or>
      (i < r \<and> SR s ! r \<and>
       (\<exists>j<nc. col4row s ! i = int j \<and> SC s ! j \<and> shortestPathCosts s ! j = Fin m)))"

definition si_scanned_cols :: "nat \<Rightarrow> nat \<Rightarrow> sap \<Rightarrow> nat set \<Rightarrow> bool" where
  "si_scanned_cols nc r s extra =
     (\<forall>j<nc. SC s ! j \<longrightarrow> j \<notin> extra \<longrightarrow>
        (\<exists>i'<r. row4col s ! j = int i' \<and> SR s ! i'))"

definition si_cost_le :: "nat \<Rightarrow> sap \<Rightarrow> rat \<Rightarrow> bool" where
  "si_cost_le nc s m = (\<forall>j<nc. SC s ! j \<longrightarrow> (\<exists>x. shortestPathCosts s ! j = Fin x \<and> x \<le> m))"

definition si_rows :: "nat \<Rightarrow> nat \<Rightarrow> nat \<Rightarrow> sap \<Rightarrow> bool" where
  "si_rows nr nc r s =
     (\<forall>i'<nr. SR s ! i' \<longrightarrow>
        i' = r \<or> (i' < r \<and> (\<exists>j<nc. col4row s ! i' = int j \<and> SC s ! j)))"

definition si_cost_ge :: "nat \<Rightarrow> sap \<Rightarrow> rat \<Rightarrow> bool" where
  "si_cost_ge nc s m =
     (\<forall>j<nc. \<not> SC s ! j \<longrightarrow> (\<forall>x. shortestPathCosts s ! j = Fin x \<longrightarrow> m \<le> x))"

definition si_relax :: "nat \<Rightarrow> nat \<Rightarrow> cost list \<Rightarrow> nat \<Rightarrow> sap \<Rightarrow> bool" where
  "si_relax nr nc cm r s =
     (\<forall>i'<nr. SR s ! i' \<longrightarrow> (\<forall>j<nc. \<forall>c. cell cm nc i' j = Fin c \<longrightarrow>
        (\<exists>x. shortestPathCosts s ! j = Fin x \<and>
             x \<le> row_dist r s i' + c - val (u s ! i') - val (v s ! j))))"

definition si_path :: "nat \<Rightarrow> nat \<Rightarrow> cost list \<Rightarrow> nat \<Rightarrow> sap \<Rightarrow> bool" where
  "si_path nr nc cm r s =
     (\<forall>j<nc. \<forall>x. shortestPathCosts s ! j = Fin x \<longrightarrow>
        (\<exists>i'<nr. SR s ! i' \<and> path s ! j = int i' \<and>
           (\<exists>c. cell cm nc i' j = Fin c \<and> x = row_dist r s i' + c - val (u s ! i') - val (v s ! j))))"

definition si_rank :: "nat \<Rightarrow> sap \<Rightarrow> nat set \<Rightarrow> (nat \<Rightarrow> nat) \<Rightarrow> bool" where
  "si_rank nc s extra rk =
     (\<forall>j<nc. SC s ! j \<longrightarrow> j \<notin> extra \<longrightarrow>
        (\<forall>i' i''. path s ! j = int i' \<longrightarrow> row4col s ! j = int i'' \<longrightarrow> rk i' < rk i''))"

definition sink_inv ::
  "idx_kind \<Rightarrow> nat \<Rightarrow> nat \<Rightarrow> cost list \<Rightarrow> nat \<Rightarrow> sap \<Rightarrow> nat \<Rightarrow> rat \<Rightarrow> nat \<Rightarrow> bool" where
  "sink_inv k nr nc cm r s i m q =
     (q \<le> nc \<and> i < nr \<and> \<not> SR s ! i \<and> si_cols nc s q \<and>
      (\<forall>j<nc. ext (shortestPathCosts s ! j)) \<and>
      si_cur nr nc r s i m \<and> si_scanned_cols nc r (s\<lparr>SR := (SR s)[i := True]\<rparr>) {} \<and>
      si_cost_le nc s m \<and> si_rows nr nc r s \<and> si_cost_ge nc s m \<and>
      si_relax nr nc cm r s \<and> si_path nr nc cm r s \<and>
      (\<exists>rk. rk i = nc - q \<and> (\<forall>i'<nr. SR s ! i' \<longrightarrow> rk i' < nc - q) \<and> si_rank nc s {} rk))"

text \<open>The search, when it has returned column \<open>j\<close> as the sink with cost \<open>m\<close>.\<close>

definition sink_post ::
  "idx_kind \<Rightarrow> nat \<Rightarrow> nat \<Rightarrow> cost list \<Rightarrow> nat \<Rightarrow> sap \<Rightarrow> nat \<Rightarrow> rat \<Rightarrow> bool" where
  "sink_post k nr nc cm r s j m =
     (j < nc \<and> row4col s ! j = idx_cast k (- 1) \<and> SC s ! j \<and> shortestPathCosts s ! j = Fin m \<and>
      SR s ! r \<and> si_scanned_cols nc r s {j} \<and> si_cost_le nc s m \<and> si_rows nr nc r s \<and>
      si_cost_ge nc s m \<and> si_relax nr nc cm r s \<and> si_path nr nc cm r s \<and>
      (\<exists>rk. si_rank nc s {j} rk))"

text \<open>
  The walk back from the sink, when column \<open>j\<close> is about to be given to its predecessor:
  the rows above \<open>r\<close> are untouched and \<open>r\<close> holds nothing yet; the rows below \<open>r\<close> are
  matched to distinct columns other than \<open>j\<close>; under the updated duals every pair of the
  rows up to \<open>r\<close> is feasible, every matched pair is tight, and so is every scanned column
  with its predecessor; each scanned row below \<open>r\<close> holds a scanned column. \<open>wi_rank\<close> is
  the order of the scan on the columns whose holder has rank at most \<open>b\<close>.
\<close>

definition wi_rest :: "idx_kind \<Rightarrow> nat \<Rightarrow> nat \<Rightarrow> sap \<Rightarrow> bool" where
  "wi_rest k nr r s =
     ((\<forall>i<nr. r < i \<longrightarrow> u s ! i = Fin 0 \<and> col4row s ! i = idx_cast k (- 1)) \<and>
      col4row s ! r = idx_cast k (- 1))"

definition wi_match :: "idx_kind \<Rightarrow> nat \<Rightarrow> nat \<Rightarrow> sap \<Rightarrow> nat \<Rightarrow> bool" where
  "wi_match k nc r s j =
     ((\<forall>i<r. \<exists>j'<nc. j' \<noteq> j \<and> col4row s ! i = int j' \<and> row4col s ! j' = int i) \<and>
      (\<forall>j'<nc. j' \<noteq> j \<longrightarrow> row4col s ! j' = idx_cast k (- 1) \<or>
               (\<exists>i<r. row4col s ! j' = int i \<and> col4row s ! i = int j')))"

definition wi_tree :: "nat \<Rightarrow> cost list \<Rightarrow> nat \<Rightarrow> sap \<Rightarrow> bool" where
  "wi_tree nc cm r s =
     (\<forall>j'<nc. SC s ! j' \<longrightarrow>
        (\<exists>i'. i' \<le> r \<and> path s ! j' = int i' \<and> SR s ! i' \<and>
              cell cm nc i' j' = Fin (val (u s ! i') + val (v s ! j'))))"

definition wi_rows :: "nat \<Rightarrow> nat \<Rightarrow> sap \<Rightarrow> bool" where
  "wi_rows nc r s = (\<forall>i'<r. SR s ! i' \<longrightarrow> (\<exists>j'<nc. col4row s ! i' = int j' \<and> SC s ! j'))"

definition wi_rank :: "nat \<Rightarrow> sap \<Rightarrow> nat \<Rightarrow> (nat \<Rightarrow> nat) \<Rightarrow> nat \<Rightarrow> bool" where
  "wi_rank nc s j rk b =
     (\<forall>j'<nc. SC s ! j' \<longrightarrow> j' \<noteq> j \<longrightarrow>
        (\<forall>i' i''. path s ! j' = int i' \<longrightarrow> row4col s ! j' = int i'' \<longrightarrow> rk i'' \<le> b \<longrightarrow>
           rk i' < rk i''))"

definition walk_inv :: "idx_kind \<Rightarrow> nat \<Rightarrow> nat \<Rightarrow> cost list \<Rightarrow> nat \<Rightarrow> sap \<Rightarrow> nat \<Rightarrow> bool" where
  "walk_inv k nr nc cm r s j =
     (ri_len nr nc s \<and> ri_fin nr nc s \<and> wi_rest k nr r s \<and> j < nc \<and> SC s ! j \<and>
      wi_match k nc r s j \<and> ri_feas nc cm (Suc r) s \<and> ri_tight nc cm r s \<and>
      wi_tree nc cm r s \<and> wi_rows nc r s)"

text \<open>
  The duals certify the assignment \<open>col4row\<close> on the matrix \<open>cm\<close>: no pair has a negative
  reduced cost (\<^verbatim>\<open>cost[i][j] >= u[i] + v[j]\<close>), every row holds a column, and every matched
  pair is tight (\<^verbatim>\<open>cost[i][j] == u[i] + v[j]\<close>).
\<close>

definition duals_certify :: "nat \<Rightarrow> nat \<Rightarrow> cost list \<Rightarrow> sap \<Rightarrow> bool" where
  "duals_certify nr nc cm s =
     ((\<forall>i<nr. \<forall>j<nc. cge (cm ! (i * nc + j)) (cadd (u s ! i) (v s ! j))) \<and>
      (\<forall>i<nr. \<exists>j<nc. col4row s ! i = int j) \<and>
      (\<forall>i<nr. \<forall>j<nc. col4row s ! i = int j \<longrightarrow>
         ceq (cm ! (i * nc + j)) (cadd (u s ! i) (v s ! j))))"


section \<open>The Crouse solver: the transform layer and the status\<close>

lemma match_rows_Failed:
  "match_rows k nr nc costMatrix rows s = Some (Failed st) \<Longrightarrow>
   st = idx_cast k RECTANGULAR_LSAP_INFEASIBLE"
  by (induction rows arbitrary: s) (auto simp: Let_def split: if_splits option.splits)

lemma idx_cast_codes:
  "idx_cast k RECTANGULAR_LSAP_INFEASIBLE \<noteq> idx_cast k RECTANGULAR_LSAP_INVALID"
  "idx_cast k RECTANGULAR_LSAP_INFEASIBLE \<noteq> 0"
  "idx_cast k RECTANGULAR_LSAP_INVALID \<noteq> 0"
  by (cases k; simp add: RECTANGULAR_LSAP_INFEASIBLE_def RECTANGULAR_LSAP_INVALID_def)+

lemma transpose_inner_length:
  "length (fold (\<lambda>j temp. temp[j * nr + i := costMatrix ! (i * nc + j)]) [0..<m] t) = length t"
  by (induction m) simp_all

lemma transpose_inner_nth:
  assumes "i < nr" "k < length t"
  shows "fold (\<lambda>j temp. temp[j * nr + i := costMatrix ! (i * nc + j)]) [0..<m] t ! k =
         (if k mod nr = i \<and> k div nr < m then costMatrix ! (i * nc + k div nr) else t ! k)"
  using assms
proof (induction m)
  case 0
  then show ?case by simp
next
  case (Suc m)
  have eq: "(k = m * nr + i) = (k mod nr = i \<and> k div nr = m)"
    using \<open>i < nr\<close> by (auto simp: div_mult_mod_eq[symmetric] simp del: div_mult_mod_eq)
  show ?case
    using Suc eq by (auto simp: nth_list_update transpose_inner_length less_Suc_eq)
qed

lemma transpose_outer_length:
  "length (fold (\<lambda>i temp. fold (\<lambda>j temp. temp[j * nr + i := costMatrix ! (i * nc + j)]) [0..<nc] temp)
       [0..<n] t) = length t"
  by (induction n) (simp_all add: transpose_inner_length)

lemma transpose_outer_nth:
  assumes "n \<le> nr" "k < nr * nc" "length t = nr * nc"
  shows "fold (\<lambda>i temp. fold (\<lambda>j temp. temp[j * nr + i := costMatrix ! (i * nc + j)]) [0..<nc] temp)
           [0..<n] t ! k =
         (if k mod nr < n then costMatrix ! ((k mod nr) * nc + k div nr) else t ! k)"
  using assms
proof (induction n)
  case 0
  then show ?case by simp
next
  case (Suc n)
  have "k div nr < nc"
    using \<open>k < nr * nc\<close> by (simp add: less_mult_imp_div_less mult.commute)
  then show ?case
    using Suc by (auto simp: transpose_inner_nth transpose_outer_length less_Suc_eq)
qed

lemma transpose_copy_length: "length (transpose_copy nr nc costMatrix) = nr * nc"
  by (simp add: transpose_copy_def transpose_outer_length)

lemma transpose_copy_nth:
  "k < nr * nc \<Longrightarrow>
   transpose_copy nr nc costMatrix ! k = costMatrix ! ((k mod nr) * nc + k div nr)"
proof -
  assume k: "k < nr * nc"
  then have "0 < nr" by (cases nr) simp_all
  then have "k mod nr < nr" by simp
  with k show ?thesis
    by (simp add: transpose_copy_def transpose_outer_nth)
qed

lemma transposed_index_less:
  assumes "k < nr * (nc::nat)"
  shows "(k mod nr) * nc + k div nr < nr * nc"
proof -
  from assms have nr: "0 < nr" by (cases nr) simp_all
  have d: "k div nr < nc"
    using assms by (simp add: less_mult_imp_div_less mult.commute)
  have m: "k mod nr < nr" using nr by simp
  have "(k mod nr) * nc + k div nr < (k mod nr) * nc + nc" using d by simp
  also have "\<dots> = (k mod nr + 1) * nc" by simp
  also have "\<dots> \<le> nr * nc" using m by (intro mult_le_mono1) simp
  finally show ?thesis .
qed


lemma transpose_copy_set:
  assumes "length costMatrix = nr * nc"
  shows "set (transpose_copy nr nc costMatrix) = set costMatrix"
proof (intro set_eqI iffI)
  fix x assume "x \<in> set (transpose_copy nr nc costMatrix)"
  then obtain k where k: "k < nr * nc" and x: "x = transpose_copy nr nc costMatrix ! k"
    by (auto simp: in_set_conv_nth transpose_copy_length)
  then have "x = costMatrix ! ((k mod nr) * nc + k div nr)"
    by (simp add: transpose_copy_nth)
  with transposed_index_less[OF k] assms show "x \<in> set costMatrix"
    by simp
next
  fix x assume "x \<in> set costMatrix"
  then obtain m where m: "m < nr * nc" and x: "x = costMatrix ! m"
    using assms by (auto simp: in_set_conv_nth)
  then have nc: "0 < nc" by (cases nc) simp_all
  define i where "i = m div nc"
  define j where "j = m mod nc"
  have i: "i < nr" using m by (simp add: i_def less_mult_imp_div_less)
  have j: "j < nc" using nc by (simp add: j_def)
  have mij: "m = i * nc + j" by (simp add: i_def j_def)
  have k: "j * nr + i < nr * nc"
  proof -
    have "j * nr + i < j * nr + nr" using i by simp
    also have "\<dots> = (j + 1) * nr" by simp
    also have "\<dots> \<le> nc * nr" using j by (intro mult_le_mono1) simp
    finally show ?thesis by (simp add: mult.commute)
  qed
  have "transpose_copy nr nc costMatrix ! (j * nr + i) = costMatrix ! m"
    using k i by (simp add: transpose_copy_nth mij)
  with k x show "x \<in> set (transpose_copy nr nc costMatrix)"
    by (metis in_set_conv_nth transpose_copy_length)
qed

lemma has_invalid_entry_iff:
  "has_invalid_entry n costMatrix = (\<exists>i<n. costMatrix ! i = NaN \<or> costMatrix ! i = NInf)"
  by (auto simp: has_invalid_entry_def list_ex_iff cne_def ceq_def)

lemma has_invalid_entry_set:
  "length costMatrix = n \<Longrightarrow>
   has_invalid_entry n costMatrix = (NaN \<in> set costMatrix \<or> NInf \<in> set costMatrix)"
  by (auto simp: has_invalid_entry_iff in_set_conv_nth)

lemma solve_overflow:
  assumes "nr \<noteq> 0" "nc \<noteq> 0" "\<not> idx_fits k (nr * nc)"
  shows "solve_rectangular_linear_assignment k nr nc costMatrix maximize a b =
         Some Undefined_behaviour"
  using assms by (simp add: solve_rectangular_linear_assignment_def)

lemma idx_fits_small:
  assumes "n < 2 ^ 31"
  shows "idx_fits k n"
proof -
  have "int n < int (2 ^ 31)" using assms by (simp only: of_nat_less_iff)
  then have "int n < 2 ^ 31" "int n < 2 ^ 64" by simp_all
  then show ?thesis by (cases k) simp_all
qed

lemma solve_nonempty:
  assumes "nr \<noteq> 0" "nc \<noteq> 0" "idx_fits k (nr * nc)"
  shows "solve_rectangular_linear_assignment k nr nc costMatrix maximize a b =
     (if has_invalid_entry (nr * nc) (working_matrix nr nc costMatrix maximize)
      then Some (Returns (idx_cast k RECTANGULAR_LSAP_INVALID) a b)
      else finish (nc < nr) (min nr nc) a b
             (match_rows k (min nr nc) (max nr nc) (working_matrix nr nc costMatrix maximize)
                [0..<min nr nc] (initial_sap k (min nr nc) (max nr nc))))"
proof (cases "nc < nr")
  case True
  then have m: "min nr nc = nc" "max nr nc = nr" "nc * nr = nr * nc" by simp_all
  show ?thesis
    unfolding solve_rectangular_linear_assignment_def working_matrix_def finish_def Let_def m
    using assms True
    by (cases maximize; simp only: if_True if_False simp_thms id_apply mult.commute[of nc nr])
next
  case False
  then have m: "min nr nc = nr" "max nr nc = nc" by simp_all
  show ?thesis
    unfolding solve_rectangular_linear_assignment_def working_matrix_def finish_def Let_def m
    using assms False by (cases maximize; simp only: if_True if_False simp_thms id_apply)
qed


lemma working_matrix_length:
  assumes "length costMatrix = nr * nc"
  shows "length (working_matrix nr nc costMatrix maximize) = nr * nc"
  using assms by (simp add: working_matrix_def transpose_copy_length)

lemma cneg_eq_iff: "(NaN = cneg x) = (x = NaN)" "(NInf = cneg x) = (x = PInf)"
  by (cases x; simp)+

lemma working_matrix_set:
  assumes "length costMatrix = nr * nc"
  shows "set (working_matrix nr nc costMatrix maximize) =
         (if maximize then cneg ` set costMatrix else set costMatrix)"
  using assms by (simp add: working_matrix_def transpose_copy_set)

lemma working_matrix_invalid:
  assumes "length costMatrix = nr * nc"
  shows "has_invalid_entry (nr * nc) (working_matrix nr nc costMatrix maximize) =
         (NaN \<in> set costMatrix \<or> (if maximize then PInf else NInf) \<in> set costMatrix)"
proof -
  have "(NaN \<in> cneg ` set costMatrix) = (NaN \<in> set costMatrix)"
    "(NInf \<in> cneg ` set costMatrix) = (PInf \<in> set costMatrix)"
    by (auto simp: image_iff cneg_eq_iff)
  then show ?thesis
    using assms
    by (simp add: has_invalid_entry_set working_matrix_length working_matrix_set)
qed

lemma finish_Returns:
  assumes "finish transposed n a b r = Some (Returns st a' b')"
  shows "(\<exists>s. r = Some (Matched s) \<and> st = 0) \<or> (r = Some (Failed st) \<and> a' = a \<and> b' = b)"
  using assms by (auto simp: finish_def split: option.splits rows_result.splits)

text \<open>
  Claim C10. A call with \<open>nr = 0\<close> or \<open>nc = 0\<close> returns 0 at once, for either value of
  \<open>maximize\<close> and for each index type: the result does not depend on the cost buffer at all
  (so a NaN or a negative infinity in it is never rejected), and the output buffers come
  back as they were passed.
\<close>

theorem crouse_empty_returns_ok:
  "nr = 0 \<or> nc = 0 \<Longrightarrow>
   solve_rectangular_linear_assignment k nr nc costMatrix maximize a b = Some (Returns 0 a b)"
  by (simp add: solve_rectangular_linear_assignment_def)

theorem crouse_empty_returns_ok_witness:
  "((0::nat) = 0 \<or> (3::nat) = 0) \<and>
   solve_rectangular_linear_assignment Idx_int 0 3 [NaN, NInf] True [7] [8] = Some (Returns 0 [7] [8])"
  using crouse_empty_returns_ok [of 0 3 Idx_int "[NaN, NInf]" True "[7]" "[8]"] by simp




text \<open>
  Claim C8. When the Crouse solver returns Infeasible or Invalid, the output buffers \<open>a\<close>
  and \<open>b\<close> hold what they held before the call: they are written on the path that returns
  0 only.
\<close>

theorem crouse_failure_leaves_outputs:
  assumes "solve_rectangular_linear_assignment k nr nc costMatrix maximize a b = Some (Returns st a' b')"
    and "st = idx_cast k RECTANGULAR_LSAP_INFEASIBLE \<or> st = idx_cast k RECTANGULAR_LSAP_INVALID"
  shows "a' = a \<and> b' = b"
proof (cases "nr = 0 \<or> nc = 0")
  case True
  with assms(1) show ?thesis by (simp add: solve_rectangular_linear_assignment_def)
next
  case False
  then have nz: "nr \<noteq> 0" "nc \<noteq> 0" by simp_all
  have st: "st \<noteq> 0" using assms(2) idx_cast_codes[of k] by auto
  have fits: "idx_fits k (nr * nc)"
  proof (rule ccontr)
    assume "\<not> idx_fits k (nr * nc)"
    from solve_overflow[OF nz this] assms(1) show False by simp
  qed
  show ?thesis
  proof (cases "has_invalid_entry (nr * nc) (working_matrix nr nc costMatrix maximize)")
    case True
    with assms(1) show ?thesis by (simp add: solve_nonempty[OF nz fits])
  next
    case False
    with assms(1) have "finish (nc < nr) (min nr nc) a b
             (match_rows k (min nr nc) (max nr nc) (working_matrix nr nc costMatrix maximize)
                [0..<min nr nc] (initial_sap k (min nr nc) (max nr nc))) = Some (Returns st a' b')"
      by (simp add: solve_nonempty[OF nz fits])
    from finish_Returns[OF this] st show ?thesis by auto
  qed
qed

theorem crouse_failure_leaves_outputs_witness:
  "solve_rectangular_linear_assignment Idx_int 2 2 [PInf, PInf, Fin 1, Fin 2] False [7, 7] [8, 8] =
     Some (Returns (- 1) [7, 7] [8, 8]) \<and>
   (- 1 = idx_cast Idx_int RECTANGULAR_LSAP_INFEASIBLE \<or>
    - 1 = idx_cast Idx_int RECTANGULAR_LSAP_INVALID)"
proof -
  have run: "solve_rectangular_linear_assignment Idx_int 2 2 [PInf, PInf, Fin 1, Fin 2] False
               [7, 7] [8, 8] = Some (Returns (- 1) [7, 7] [8, 8])"
    by code_simp
  have st: "- 1 = idx_cast Idx_int RECTANGULAR_LSAP_INFEASIBLE \<or>
            - 1 = idx_cast Idx_int RECTANGULAR_LSAP_INVALID"
    by (simp add: RECTANGULAR_LSAP_INFEASIBLE_def)
  from crouse_failure_leaves_outputs [OF run st] run st show ?thesis by simp
qed

text \<open>
  Claim C3, as amended. For a non-empty \<open>nr \<times> nc\<close> matrix whose size \<open>nr * nc\<close> fits the index
  type, the Crouse solver returns Invalid exactly when the matrix it works on, which is the
  input negated when \<open>maximize\<close> is true, has a NaN or a negative infinity: with
  \<open>maximize = false\<close> when some input entry is a NaN or \<open>-inf\<close>, with \<open>maximize = true\<close> when some
  input entry is a NaN or \<open>+inf\<close>. The status depends on the entries alone, not on the search.
\<close>

theorem crouse_invalid_iff:
  assumes "0 < nr" "0 < nc" "length costMatrix = nr * nc" "idx_fits k (nr * nc)"
  shows "(\<exists>a' b'. solve_rectangular_linear_assignment k nr nc costMatrix maximize a b =
            Some (Returns (idx_cast k RECTANGULAR_LSAP_INVALID) a' b')) \<longleftrightarrow>
         (NaN \<in> set costMatrix \<or> (if maximize then PInf else NInf) \<in> set costMatrix)"
proof -
  have nz: "nr \<noteq> 0" "nc \<noteq> 0" using assms by simp_all
  show ?thesis
  proof (cases "has_invalid_entry (nr * nc) (working_matrix nr nc costMatrix maximize)")
    case True
    then show ?thesis
      using working_matrix_invalid[OF assms(3), of maximize]
      by (simp add: solve_nonempty[OF nz assms(4)])
  next
    case False
    have "solve_rectangular_linear_assignment k nr nc costMatrix maximize a b \<noteq>
            Some (Returns (idx_cast k RECTANGULAR_LSAP_INVALID) a' b')" for a' b'
    proof
      assume "solve_rectangular_linear_assignment k nr nc costMatrix maximize a b =
            Some (Returns (idx_cast k RECTANGULAR_LSAP_INVALID) a' b')"
      with False have "finish (nc < nr) (min nr nc) a b
             (match_rows k (min nr nc) (max nr nc) (working_matrix nr nc costMatrix maximize)
                [0..<min nr nc] (initial_sap k (min nr nc) (max nr nc))) =
             Some (Returns (idx_cast k RECTANGULAR_LSAP_INVALID) a' b')"
        by (simp add: solve_nonempty[OF nz assms(4)])
      from finish_Returns[OF this] show False
        using idx_cast_codes[of k] by (auto dest!: match_rows_Failed)
    qed
    with False show ?thesis
      using working_matrix_invalid[OF assms(3), of maximize] by simp
  qed
qed

theorem crouse_invalid_iff_witness:
  "(0::nat) < 1 \<and> (0::nat) < 2 \<and> length [Fin 1, NaN] = (1::nat) * 2 \<and> idx_fits Idx_int (1 * 2) \<and>
   (\<exists>a' b'. solve_rectangular_linear_assignment Idx_int 1 2 [Fin 1, NaN] False [7] [8] =
      Some (Returns (idx_cast Idx_int RECTANGULAR_LSAP_INVALID) a' b'))"
  using crouse_invalid_iff [of 1 2 "[Fin 1, NaN]" Idx_int False "[7]" "[8]"] by simp

text \<open>
  The claim as stated fails with \<open>maximize = true\<close>: the \<open>1 \<times> 1\<close> matrix \<open>[+inf]\<close>, which has
  neither a NaN nor a negative infinity, is answered Invalid, and the matrix \<open>[-inf]\<close> is not
  (it is answered Infeasible). It also fails for a matrix too large for the index type: at
  \<^verbatim>\<open>int\<close> the \<open>2048 \<times> 1048576\<close> matrix of NaNs, of \<open>2^31\<close> entries, makes \<^verbatim>\<open>nr * nc\<close> overflow, and
  the call is undefined where the claim says Invalid.
\<close>

theorem crouse_invalid_counterexample:
  "solve_rectangular_linear_assignment Idx_int 1 1 [PInf] True [7] [8] =
     Some (Returns RECTANGULAR_LSAP_INVALID [7] [8]) \<and>
   NaN \<notin> set [PInf] \<and> NInf \<notin> set [PInf] \<and>
   solve_rectangular_linear_assignment Idx_int 1 1 [NInf] True [7] [8] =
     Some (Returns RECTANGULAR_LSAP_INFEASIBLE [7] [8]) \<and>
   solve_rectangular_linear_assignment Idx_int 2048 1048576 (replicate (2048 * 1048576) NaN) False
     (replicate 2048 7) (replicate 2048 8) = Some Undefined_behaviour \<and>
   NaN \<in> set (replicate (2048 * 1048576) NaN)"
proof -
  have small: "solve_rectangular_linear_assignment Idx_int 1 1 [PInf] True [7] [8] =
     Some (Returns RECTANGULAR_LSAP_INVALID [7] [8]) \<and>
   NaN \<notin> set [PInf] \<and> NInf \<notin> set [PInf] \<and>
   solve_rectangular_linear_assignment Idx_int 1 1 [NInf] True [7] [8] =
     Some (Returns RECTANGULAR_LSAP_INFEASIBLE [7] [8])"
    by code_simp
  have large: "solve_rectangular_linear_assignment Idx_int 2048 1048576
     (replicate (2048 * 1048576) NaN) False (replicate 2048 7) (replicate 2048 8) =
     Some Undefined_behaviour"
    by (rule solve_overflow) simp_all
  have nan: "NaN \<in> set (replicate (2048 * 1048576) NaN)"
    by simp
  from small large nan show ?thesis
    by (elim conjE) (intro conjI; assumption)
qed

section \<open>The Crouse solver on constant matrices\<close>

lemma off_int [simp]: "off (int j) = j"
  by (simp add: off_def)

lemma map_upt_update:
  "m < n \<Longrightarrow> (map f [0..<n])[m := y] = map (f(m := y)) [0..<n]"
  by (rule nth_equalityI) (auto simp: nth_list_update)

lemma fold_update_upt:
  "t \<le> length a \<Longrightarrow> fold (\<lambda>i a. a[i := f i]) [0..<t] a = map f [0..<t] @ drop t a"
proof (induction t)
  case 0
  then show ?case by simp
next
  case (Suc t)
  then have "t < length a" by simp
  then have "(map f [0..<t] @ drop t a)[t := f t] = map f [0..<t] @ f t # drop (Suc t) a"
    by (simp add: list_update_append upd_conv_take_nth_drop flip: Cons_nth_drop_Suc)
  with Suc show ?case by simp
qed

lemma fold_skip:
  "(\<And>i. i \<in> set xs \<Longrightarrow> f i s = s) \<Longrightarrow> fold f xs s = s"
  by (induction xs) simp_all

lemma remaining_fill:
  "length r = n \<Longrightarrow>
   fold (\<lambda>it r. r[it := int n - int it - 1]) [0..<n] r = map (\<lambda>it. int n - int it - 1) [0..<n]"
  by (simp add: fold_update_upt)


lemma constant_cell:
  assumes "m < n" "j < n"
  shows "replicate (n * n) (Fin x) ! (m * n + j) = Fin x"
proof -
  have "m * n + j < m * n + n" using assms by simp
  also have "\<dots> = (m + 1) * n" by simp
  also have "\<dots> \<le> n * n" using \<open>m < n\<close> by (intro mult_le_mono1) simp
  finally show ?thesis by simp
qed

lemma scan_step_constant:
  assumes "m < n" "t < n" and fresh: "\<And>j. j < n \<Longrightarrow> int j \<noteq> idx_cast k (- 1)"
    and st: "u st ! m = Fin 0" "v st = replicate n (Fin 0)"
      "remaining st ! t = int (n - Suc t)"
      "shortestPathCosts st = map (\<lambda>j. if n - t \<le> j then Fin x else PInf) [0..<n]"
      "row4col st = map (\<lambda>i. if i < m then int i else idx_cast k (- 1)) [0..<n]"
    and lo: "lowest = (if t = 0 then PInf else Fin x)"
  shows "scan_step k n (replicate (n * n) (Fin x)) (int m) (Fin 0) t (st, lowest, index) =
     (st\<lparr>path := (path st)[n - Suc t := int m],
         shortestPathCosts := map (\<lambda>j. if n - Suc t \<le> j then Fin x else PInf) [0..<n]\<rparr>,
      Fin x,
      if t = 0 \<or> m \<le> n - Suc t then int t else index)"
proof -
  have jn: "n - Suc t < n" "\<not> n - t \<le> n - Suc t"
    using \<open>t < n\<close> by simp_all
  have cell: "replicate (n * n) (Fin x) ! (m * n + (n - Suc t)) = Fin x"
    using constant_cell[OF \<open>m < n\<close> jn(1)] .
  have vj: "v st ! (n - Suc t) = Fin 0"
    using jn st(2) by simp
  have len: "length (shortestPathCosts st) = n"
    using st(4) by simp
  have old: "shortestPathCosts st ! (n - Suc t) = PInf"
    using jn st(4) by simp
  have upd: "(shortestPathCosts st)[n - Suc t := Fin x] =
             map (\<lambda>j. if n - Suc t \<le> j then Fin x else PInf) [0..<n]"
    unfolding st(4) using \<open>t < n\<close> by (intro nth_equalityI) (auto simp: nth_list_update)
  have r4c: "(row4col st ! (n - Suc t) = idx_cast k (- 1)) = (m \<le> n - Suc t)"
    unfolding st(5) using jn fresh[of "n - Suc t"] by auto
  have new: "map (\<lambda>j. if n - Suc t \<le> j then Fin x else PInf) [0..<n] ! (n - Suc t) = Fin x"
    using jn by simp
  show ?thesis
    by (simp add: scan_step_def Let_def csub_def ceq_def st(1) st(3) cell vj old upd new r4c lo)
qed


lemma scan_constant:
  assumes "m < n" "t \<le> n" and fresh: "\<And>j. j < n \<Longrightarrow> int j \<noteq> idx_cast k (- 1)"
    and s: "u s ! m = Fin 0" "v s = replicate n (Fin 0)"
      "remaining s = map (\<lambda>it. int n - int it - 1) [0..<n]"
      "shortestPathCosts s = replicate n PInf"
      "row4col s = map (\<lambda>i. if i < m then int i else idx_cast k (- 1)) [0..<n]"
      "length (path s) = n"
  shows "\<exists>p. length p = n \<and> (\<forall>j<n. n - t \<le> j \<longrightarrow> p ! j = int m) \<and>
     fold (scan_step k n (replicate (n * n) (Fin x)) (int m) (Fin 0)) [0..<t] (s, PInf, idx_cast k (- 1)) =
       (s\<lparr>path := p, shortestPathCosts := map (\<lambda>j. if n - t \<le> j then Fin x else PInf) [0..<n]\<rparr>,
        if t = 0 then PInf else Fin x,
        if t = 0 then idx_cast k (- 1) else int (min (t - 1) (n - 1 - m)))"
  using \<open>t \<le> n\<close>
proof (induction t)
  case 0
  have "map (\<lambda>j. if n - 0 \<le> j then Fin x else PInf) [0..<n] = replicate n PInf"
    by (rule nth_equalityI) auto
  then have "s\<lparr>path := path s, shortestPathCosts := map (\<lambda>j. if n - 0 \<le> j then Fin x else PInf) [0..<n]\<rparr> = s"
    using s(4) by simp
  then show ?case
    using s(6) by (intro exI[of _ "path s"]) simp
next
  case (Suc t)
  then have t: "t < n" by simp
  from Suc obtain p where p: "length p = n" "\<forall>j<n. n - t \<le> j \<longrightarrow> p ! j = int m"
    and f: "fold (scan_step k n (replicate (n * n) (Fin x)) (int m) (Fin 0)) [0..<t] (s, PInf, idx_cast k (- 1)) =
       (s\<lparr>path := p, shortestPathCosts := map (\<lambda>j. if n - t \<le> j then Fin x else PInf) [0..<n]\<rparr>,
        if t = 0 then PInf else Fin x,
        if t = 0 then idx_cast k (- 1) else int (min (t - 1) (n - 1 - m)))"
    by auto
  let ?st = "s\<lparr>path := p, shortestPathCosts := map (\<lambda>j. if n - t \<le> j then Fin x else PInf) [0..<n]\<rparr>"
  let ?lo = "if t = 0 then PInf else Fin x"
  let ?ix = "if t = 0 then idx_cast k (- 1) else int (min (t - 1) (n - 1 - m))"
  have rem: "remaining ?st ! t = int (n - Suc t)"
    using t s(3) by simp
  have step: "scan_step k n (replicate (n * n) (Fin x)) (int m) (Fin 0) t (?st, ?lo, ?ix) =
     (?st\<lparr>path := (path ?st)[n - Suc t := int m],
         shortestPathCosts := map (\<lambda>j. if n - Suc t \<le> j then Fin x else PInf) [0..<n]\<rparr>,
      Fin x,
      if t = 0 \<or> m \<le> n - Suc t then int t else ?ix)"
    by (rule scan_step_constant[OF \<open>m < n\<close> t fresh _ _ rem]) (simp_all add: s)
  have ix: "(if t = 0 \<or> m \<le> n - Suc t then int t else ?ix) = int (min t (n - 1 - m))"
    using t \<open>m < n\<close> by (auto simp: min_def)
  let ?p = "p[n - Suc t := int m]"
  have p': "length ?p = n" "\<forall>j<n. n - Suc t \<le> j \<longrightarrow> ?p ! j = int m"
  proof -
    show "length ?p = n" using p(1) by simp
    show "\<forall>j<n. n - Suc t \<le> j \<longrightarrow> ?p ! j = int m"
    proof (intro allI impI)
      fix j assume j: "j < n" "n - Suc t \<le> j"
      show "?p ! j = int m"
      proof (cases "j = n - Suc t")
        case True
        then show ?thesis using p(1) j by simp
      next
        case False
        with j have "n - t \<le> j" by arith
        with p(2) j False show ?thesis by simp
      qed
    qed
  qed
  have "fold (scan_step k n (replicate (n * n) (Fin x)) (int m) (Fin 0)) [0..<Suc t] (s, PInf, idx_cast k (- 1)) =
        scan_step k n (replicate (n * n) (Fin x)) (int m) (Fin 0) t (?st, ?lo, ?ix)"
    using f by simp
  also have "\<dots> = (s\<lparr>path := ?p, shortestPathCosts := map (\<lambda>j. if n - Suc t \<le> j then Fin x else PInf) [0..<n]\<rparr>,
      Fin x, int (min t (n - 1 - m)))"
    unfolding step ix by simp
  finally show ?case
    using p' by (intro exI[of _ ?p]) simp
qed

lemma augmenting_path_constant:
  assumes "m < n" and fresh: "\<And>j. j < n \<Longrightarrow> int j \<noteq> idx_cast k (- 1)"
    and inv: "const_inv k n x m s"
  shows "\<exists>p r. length p = n \<and> p ! m = int m \<and> length r = n \<and>
     augmenting_path k n (replicate (n * n) (Fin x)) s (int m) =
       (int m, Some (Fin x),
        s\<lparr>remaining := r, SR := (replicate n False)[m := True], SC := (replicate n False)[m := True],
          shortestPathCosts := replicate n (Fin x), path := p\<rparr>)"
proof -
  let ?s1 = "s\<lparr>remaining := map (\<lambda>it. int n - int it - 1) [0..<n],
               SR := replicate n False, SC := replicate n False,
               shortestPathCosts := replicate n PInf\<rparr>"
  let ?s2 = "?s1\<lparr>SR := (SR ?s1)[off (int m) := True]\<rparr>"
  have init: "augmenting_path k n (replicate (n * n) (Fin x)) s (int m) =
        find_sink k n (replicate (n * n) (Fin x)) ?s1 (int m) (Fin 0) n"
    using inv by (simp add: augmenting_path_def const_inv_def remaining_fill)
  have um: "u ?s2 ! m = Fin 0"
    using inv \<open>m < n\<close> by (simp add: const_inv_def)
  from scan_constant[OF \<open>m < n\<close> order_refl fresh um, of x]
  obtain p where p: "length p = n" "\<forall>j<n. p ! j = int m"
    and sc: "scan_remaining k n (replicate (n * n) (Fin x)) (int m) (Fin 0) n ?s2 =
       (?s2\<lparr>path := p, shortestPathCosts := map (\<lambda>j. if n - n \<le> j then Fin x else PInf) [0..<n]\<rparr>,
        Fin x, int (n - 1 - m))"
    using inv \<open>m < n\<close> by (auto simp: const_inv_def scan_remaining_def)
  have full: "map (\<lambda>j. if n - n \<le> j then Fin x else PInf) [0..<n] = replicate n (Fin x)"
    by (rule nth_equalityI) auto
  have remj: "map (\<lambda>it. int n - int it - 1) [0..<n] ! (n - Suc m) = int m"
    using \<open>m < n\<close> by (simp add: nth_map_upt)
  have r4c: "row4col s ! m = idx_cast k (- 1)"
    using inv \<open>m < n\<close> by (simp add: const_inv_def)
  let ?r = "(map (\<lambda>it. int n - int it - 1) [0..<n])[n - Suc m :=
              map (\<lambda>it. int n - int it - 1) [0..<n] ! (n - Suc 0)]"
  have "find_sink k n (replicate (n * n) (Fin x)) ?s1 (int m) (Fin 0) n =
       (int m, Some (Fin x),
        s\<lparr>remaining := ?r, SR := (replicate n False)[m := True], SC := (replicate n False)[m := True],
          shortestPathCosts := replicate n (Fin x), path := p\<rparr>)"
    apply (subst find_sink.simps)
    apply (simp only: sc Let_def fst_conv snd_conv full)
    apply (simp add: ceq_def remj r4c)
    done
  moreover have "length ?r = n" by simp
  moreover have "p ! m = int m" using p \<open>m < n\<close> by simp
  ultimately show ?thesis
    unfolding init using p(1) by blast
qed


lemma update_duals_constant:
  assumes "m < n"
    and s: "u s ! m = Fin 0" "v s = replicate n (Fin 0)"
      "SR s = (replicate n False)[m := True]" "SC s = (replicate n False)[m := True]"
      "shortestPathCosts s = replicate n (Fin x)"
  shows "update_duals n n m (Fin x) s = s\<lparr>u := (u s)[m := Fin x]\<rparr>"
proof -
  let ?s1 = "s\<lparr>u := (u s)[m := Fin x]\<rparr>"
  have rows: "fold (\<lambda>i t. if SR t ! i \<and> i \<noteq> m
                      then t\<lparr>u := (u t)[i := cadd (u t ! i)
                                (csub (Fin x) (shortestPathCosts t ! off (col4row t ! i)))]\<rparr>
                      else t) [0..<n] ?s1 = ?s1"
    by (rule fold_skip) (auto simp: s nth_list_update)
  have cols: "fold (\<lambda>j t. if SC t ! j
                 then t\<lparr>v := (v t)[j := csub (v t ! j) (csub (Fin x) (shortestPathCosts t ! j))]\<rparr>
                 else t) [0..<n] ?s1 = ?s1"
  proof (rule fold_skip)
    fix j assume "j \<in> set [0..<n]"
    then have j: "j < n" by simp
    have "(v ?s1)[j := csub (v ?s1 ! j) (csub (Fin x) (shortestPathCosts ?s1 ! j))] = v ?s1"
      using j by (simp add: s csub_def list_update_same_conv)
    then show "(if SC ?s1 ! j
                then ?s1\<lparr>v := (v ?s1)[j := csub (v ?s1 ! j) (csub (Fin x) (shortestPathCosts ?s1 ! j))]\<rparr>
                else ?s1) = ?s1"
      by simp
  qed
  show ?thesis
    unfolding update_duals_def Let_def
    by (simp only: s(1) cadd.simps add_0 rows cols)
qed

lemma row_constant:
  assumes "m < n" and fresh: "\<And>j. j < n \<Longrightarrow> int j \<noteq> idx_cast k (- 1)"
    and inv: "const_inv k n x m s"
  shows "\<exists>s'. const_inv k n x (Suc m) s' \<and>
           match_rows k n n (replicate (n * n) (Fin x)) (m # rows) s =
           match_rows k n n (replicate (n * n) (Fin x)) rows s'"
proof -
  from augmenting_path_constant[OF assms] obtain p r
    where p: "length p = n" "p ! m = int m" and r: "length r = n"
      and ap: "augmenting_path k n (replicate (n * n) (Fin x)) s (int m) =
       (int m, Some (Fin x),
        s\<lparr>remaining := r, SR := (replicate n False)[m := True], SC := (replicate n False)[m := True],
          shortestPathCosts := replicate n (Fin x), path := p\<rparr>)"
    by blast
  let ?s3 = "s\<lparr>remaining := r, SR := (replicate n False)[m := True],
              SC := (replicate n False)[m := True],
              shortestPathCosts := replicate n (Fin x), path := p\<rparr>"
  have ud: "update_duals n n m (Fin x) ?s3 = ?s3\<lparr>u := (u ?s3)[m := Fin x]\<rparr>"
    using inv \<open>m < n\<close> by (intro update_duals_constant) (simp_all add: const_inv_def)
  let ?s4 = "?s3\<lparr>u := (u ?s3)[m := Fin x]\<rparr>"
  let ?s5 = "?s4\<lparr>row4col := (row4col ?s4)[m := int m], col4row := (col4row ?s4)[m := int m]\<rparr>"
  have au: "augment m ?s4 (int m) = Some ?s5"
    by (subst augment.simps) (simp add: p)
  have nneg: "\<not> idx_neg k (int m)"
    by (cases k) simp_all
  have step: "match_rows k n n (replicate (n * n) (Fin x)) (m # rows) s =
           match_rows k n n (replicate (n * n) (Fin x)) rows ?s5"
    by (simp only: match_rows.simps ap Let_def fst_conv snd_conv nneg if_False option.case ud au)
  have e1: "(map (\<lambda>i. if i < m then Fin x else Fin 0) [0..<n])[m := Fin x] =
            map (\<lambda>i. if i < Suc m then Fin x else Fin 0) [0..<n]"
    using \<open>m < n\<close> by (intro nth_equalityI) (auto simp: nth_list_update less_Suc_eq)
  have e2: "(map (\<lambda>i. if i < m then int i else idx_cast k (- 1)) [0..<n])[m := int m] =
            map (\<lambda>i. if i < Suc m then int i else idx_cast k (- 1)) [0..<n]"
    using \<open>m < n\<close> by (intro nth_equalityI) (auto simp: nth_list_update less_Suc_eq)
  have "const_inv k n x (Suc m) ?s5"
    using inv p r by (simp add: const_inv_def e1 e2)
  with step show ?thesis by blast
qed

lemma match_rows_constant:
  assumes fresh: "\<And>j. j < n \<Longrightarrow> int j \<noteq> idx_cast k (- 1)"
    and "m \<le> n" "const_inv k n x m s"
  shows "\<exists>s'. const_inv k n x n s' \<and>
           match_rows k n n (replicate (n * n) (Fin x)) [m..<n] s = Some (Matched s')"
  using assms(2,3)
proof (induction "n - m" arbitrary: m s)
  case 0
  then show ?case by simp
next
  case (Suc d)
  then have m: "m < n" by simp
  from row_constant[OF m fresh Suc.prems(2)] obtain s1
    where s1: "const_inv k n x (Suc m) s1"
      and st: "match_rows k n n (replicate (n * n) (Fin x)) (m # [Suc m..<n]) s =
           match_rows k n n (replicate (n * n) (Fin x)) [Suc m..<n] s1"
    by blast
  have "d = n - Suc m" using Suc.hyps(2) by simp
  from Suc.hyps(1)[OF this _ s1] m
  obtain s' where "const_inv k n x n s'"
      "match_rows k n n (replicate (n * n) (Fin x)) [Suc m..<n] s1 = Some (Matched s')"
    by auto
  with st m show ?case
    by (simp add: upt_conv_Cons)
qed

lemma initial_const_inv: "const_inv k n x 0 (initial_sap k n n)"
  by (simp add: const_inv_def initial_sap_def map_replicate_const)

text \<open>
  Claim C6, as amended. For every \<open>n \<ge> 1\<close> (with \<open>n * n\<close> in the range of a 32-bit \<^verbatim>\<open>int\<close>)
  and every finite constant \<open>x\<close>, the Crouse solver, at either index type and with
  \<open>maximize = false\<close>, answers the \<open>n \<times> n\<close> matrix whose entries all equal \<open>x\<close> with status 0
  and the identity assignment: \<open>a[i] = i\<close> and \<open>b[i] = i\<close>.
\<close>

theorem crouse_constant_identity:
  assumes "0 < n" "n * n < 2 ^ 31" "length a = n" "length b = n"
  shows "solve_rectangular_linear_assignment k n n (replicate (n * n) (Fin x)) False a b =
         Some (Returns 0 (map int [0..<n]) (map int [0..<n]))"
proof -
  have nn: "n \<le> n * n" using \<open>0 < n\<close> by simp
  have fresh: "int j \<noteq> idx_cast k (- 1)" if "j < n" for j
  proof (cases k)
    case Idx_int
    then show ?thesis by simp
  next
    case Idx_size_t
    have jn: "j < n * n" using that nn by linarith
    have "j < 2 ^ 31" using jn assms(2) by (rule less_trans)
    then have "int j < int (2 ^ 31)" by (simp only: of_nat_less_iff)
    then have "int j \<noteq> 2 ^ 64 - 1" by simp
    then show ?thesis using Idx_size_t by simp
  qed
  from match_rows_constant[OF fresh _ initial_const_inv, of n x]
  obtain s' where inv: "const_inv k n x n s'"
    and mr: "match_rows k n n (replicate (n * n) (Fin x)) [0..<n] (initial_sap k n n) = Some (Matched s')"
    by auto
  have wm: "working_matrix n n (replicate (n * n) (Fin x)) False = replicate (n * n) (Fin x)"
    by (simp add: working_matrix_def)
  have valid: "\<not> has_invalid_entry (n * n) (replicate (n * n) (Fin x))"
    by (simp add: has_invalid_entry_set)
  have c4r: "col4row s' = map int [0..<n]"
    using inv by (simp add: const_inv_def)
  have wa: "fst (write_solution False n s' a b) = map int [0..<n]"
    using assms(3) by (simp add: write_solution_def fold_update_upt)
  have wb: "snd (write_solution False n s' a b) = map int [0..<n]"
    using assms(4) by (simp add: write_solution_def fold_update_upt c4r)
  have nz: "n \<noteq> 0" using assms(1) by simp
  show ?thesis
    by (simp add: solve_nonempty[OF nz nz idx_fits_small[OF assms(2)]] wm valid mr finish_def wa wb)
qed

theorem crouse_constant_identity_witness:
  "(0::nat) < 2 \<and> (2::nat) * 2 < 2 ^ 31 \<and> length [7, 7 :: int] = 2 \<and> length [8, 8 :: int] = 2 \<and>
   solve_rectangular_linear_assignment Idx_int 2 2 (replicate (2 * 2) (Fin 1)) False [7, 7] [8, 8] =
     Some (Returns 0 (map int [0..<2]) (map int [0..<2]))"
  using crouse_constant_identity [of 2 "[7, 7]" "[8, 8]" Idx_int 1] by simp

section \<open>Concrete runs of the two solvers\<close>

text \<open>The two maxima as numerals, for evaluation.\<close>

lemma double_max_code [code]:
  "double_max = Fin 179769313486231570814527423731704356798070567525844996598917476803157260780028538760589558632766878171540458953514382464234321326889464182768467546703537516986049910576551282076245490090389328944075868508455133942304583236903222948165808559332123348274797826204144723168738177180919299881250404026184124858368"
  by (simp add: double_max_def)

lemma float_max_code [code]:
  "float_max = Fin 340282346638528859811704183484516925440"
  by (simp add: float_max_def)

lemma rlap_3x3_indeterminate_v:
  "rlap double_max 3 3 [Fin 4, Fin 1, Fin 3, Fin 2, Fin 0, Fin 5, Fin 3, Fin 2, Fin 2] False
     [PInf, Fin 0, Fin 0] =
   Some (Returned (Fin 6, [0, 1, 2], [0, 1, 2], [NaN, Fin 0, Fin 2], [NaN, Fin 0, Fin 0]))"
  by code_simp

lemma rlap_3x3_zero_v:
  "rlap double_max 3 3 [Fin 4, Fin 1, Fin 3, Fin 2, Fin 0, Fin 5, Fin 3, Fin 2, Fin 2] False
     [Fin 0, Fin 0, Fin 0] =
   Some (Returned (Fin 5, [1, 0, 2], [1, 0, 2], [Fin 3, Fin 2, Fin 3],
                   [Fin 0, Fin (- 2), Fin (- 1)]))"
  by code_simp

lemma crouse_3x3:
  "solve_rlap 3 3 [Fin 4, Fin 1, Fin 3, Fin 2, Fin 0, Fin 5, Fin 3, Fin 2, Fin 2] False
     [7, 7, 7] [8, 8, 8] = Some (Returns 0 [0, 1, 2] [1, 0, 2])"
  by code_simp

text \<open>
  Claim C2. On the matrix \<open>[[4,1,3],[2,0,5],[3,2,2]]\<close> the Crouse solver returns 0 with
  \<open>a = [0,1,2]\<close> and \<open>b = [1,0,2]\<close>, and \<^verbatim>\<open>rlap\<close> returns 5 with \<open>rowsol = colsol = [1,0,2]\<close> when
  its array \<^verbatim>\<open>v\<close> is zero on entry. \<^verbatim>\<open>solve_lap\<close> hands it an array that nothing has written:
  when that array holds \<open>+inf, 0, 0\<close> the same call returns 6 with the identity assignment.
\<close>

theorem jv_3x3_depends_on_v:
  "solve_lap 3 3 [Fin 4, Fin 1, Fin 3, Fin 2, Fin 0, Fin 5, Fin 3, Fin 2, Fin 2]
     [PInf, Fin 0, Fin 0] = Some (Returned (Fin 6, [0, 1, 2], [0, 1, 2])) \<and>
   solve_lap 3 3 [Fin 4, Fin 1, Fin 3, Fin 2, Fin 0, Fin 5, Fin 3, Fin 2, Fin 2]
     [Fin 0, Fin 0, Fin 0] = Some (Returned (Fin 5, [1, 0, 2], [1, 0, 2])) \<and>
   solve_rlap 3 3 [Fin 4, Fin 1, Fin 3, Fin 2, Fin 0, Fin 5, Fin 3, Fin 2, Fin 2] False
     [7, 7, 7] [8, 8, 8] = Some (Returns 0 [0, 1, 2] [1, 0, 2])"
  by (simp add: solve_lap_def entry_result_def rlap_3x3_indeterminate_v rlap_3x3_zero_v crouse_3x3)

text \<open>
  Claim C1. The two solvers do not always report the same total: on the square matrix
  above, with \<open>+inf, 0, 0\<close> in the array \<^verbatim>\<open>v\<close> that \<^verbatim>\<open>solve_lap\<close> leaves unwritten, the
  Jonker-Volgenant solver returns 6 while the assignment of the Crouse solver costs 5.
\<close>

theorem jv_crouse_costs_differ:
  "solve_lap 3 3 [Fin 4, Fin 1, Fin 3, Fin 2, Fin 0, Fin 5, Fin 3, Fin 2, Fin 2]
     [PInf, Fin 0, Fin 0] = Some (Returned (Fin 6, [0, 1, 2], [0, 1, 2])) \<and>
   solve_rlap 3 3 [Fin 4, Fin 1, Fin 3, Fin 2, Fin 0, Fin 5, Fin 3, Fin 2, Fin 2] False
     [7, 7, 7] [8, 8, 8] = Some (Returns 0 [0, 1, 2] [1, 0, 2]) \<and>
   pairs_cost 3 [Fin 4, Fin 1, Fin 3, Fin 2, Fin 0, Fin 5, Fin 3, Fin 2, Fin 2]
     [0, 1, 2] [1, 0, 2] = Fin 5"
proof -
  have "pairs_cost 3 [Fin 4, Fin 1, Fin 3, Fin 2, Fin 0, Fin 5, Fin 3, Fin 2, Fin 2]
     [0, 1, 2] [1, 0, 2] = Fin 5"
    by code_simp
  then show ?thesis
    by (simp add: solve_lap_def entry_result_def rlap_3x3_indeterminate_v crouse_3x3)
qed

text \<open>
  Claim C5. In the same run the duals recovered by \<^verbatim>\<open>rlap\<close> are \<open>u = [NaN, 0, 2]\<close> and
  \<open>v = [NaN, 0, 0]\<close>: for the matched pair \<open>(0, 0)\<close>, of cost 4, \<open>u[0] + v[0]\<close> is a NaN and the
  equality \<open>cost[0][0] == u[0] + v[0]\<close> is false. The run adds and subtracts small integers,
  infinities and NaNs only, so it is the same in \<^verbatim>\<open>double\<close>.
\<close>

theorem jv_duals_indeterminate_v:
  "rlap double_max 3 3 [Fin 4, Fin 1, Fin 3, Fin 2, Fin 0, Fin 5, Fin 3, Fin 2, Fin 2] False
     [PInf, Fin 0, Fin 0] =
   Some (Returned (Fin 6, [0, 1, 2], [0, 1, 2], [NaN, Fin 0, Fin 2], [NaN, Fin 0, Fin 0])) \<and>
   cne ([Fin 4, Fin 1, Fin 3, Fin 2, Fin 0, Fin 5, Fin 3, Fin 2, Fin 2] ! (0 * 3 + 0))
     (cadd ([NaN, Fin 0, Fin 2] ! 0) ([NaN, Fin 0, Fin 0] ! 0))"
  by (simp add: rlap_3x3_indeterminate_v cne_def ceq_def)

text \<open>
  At \<^verbatim>\<open>size_t\<close> the test \<^verbatim>\<open>sink < 0\<close> that guards \<^verbatim>\<open>return RECTANGULAR_LSAP_INFEASIBLE\<close> is never
  true, so no call at that index type returns Infeasible, whatever the matrix.
\<close>

lemma match_rows_size_t_not_Failed:
  "match_rows Idx_size_t nr nc costMatrix rows s \<noteq> Some (Failed st)"
  by (induction rows arbitrary: s) (auto simp: Let_def split: option.splits)

lemma crouse_size_t_never_infeasible:
  "solve_rectangular_linear_assignment Idx_size_t nr nc costMatrix maximize a b \<noteq>
     Some (Returns (idx_cast Idx_size_t RECTANGULAR_LSAP_INFEASIBLE) a' b')"
proof (cases "nr = 0 \<or> nc = 0")
  case True
  then show ?thesis
    using idx_cast_codes(2)[of Idx_size_t]
    by (simp add: solve_rectangular_linear_assignment_def del: idx_cast.simps)
next
  case False
  then have nz: "nr \<noteq> 0" "nc \<noteq> 0" by simp_all
  show ?thesis
  proof
    assume run: "solve_rectangular_linear_assignment Idx_size_t nr nc costMatrix maximize a b =
       Some (Returns (idx_cast Idx_size_t RECTANGULAR_LSAP_INFEASIBLE) a' b')"
    have fits: "idx_fits Idx_size_t (nr * nc)"
    proof (rule ccontr)
      assume "\<not> idx_fits Idx_size_t (nr * nc)"
      from solve_overflow[OF nz this] run show False by simp
    qed
    show False
    proof (cases "has_invalid_entry (nr * nc) (working_matrix nr nc costMatrix maximize)")
      case True
      with run show False
        using idx_cast_codes(1)[of Idx_size_t]
        by (simp add: solve_nonempty[OF nz fits] del: idx_cast.simps)
    next
      case False
      with run have "finish (nc < nr) (min nr nc) a b
             (match_rows Idx_size_t (min nr nc) (max nr nc) (working_matrix nr nc costMatrix maximize)
                [0..<min nr nc] (initial_sap Idx_size_t (min nr nc) (max nr nc))) =
             Some (Returns (idx_cast Idx_size_t RECTANGULAR_LSAP_INFEASIBLE) a' b')"
        by (simp add: solve_nonempty[OF nz fits])
      from finish_Returns[OF this] show False
        using idx_cast_codes(2)[of Idx_size_t] match_rows_size_t_not_Failed
        by auto
    qed
  qed
qed

text \<open>
  Claim C4. On the matrix \<open>[[+inf, +inf], [1, 2]]\<close>, which has no perfect matching, the
  entry points at \<^verbatim>\<open>int\<close> return Infeasible. The two entry points at \<^verbatim>\<open>size_t\<close> do not: they go
  on past the test \<^verbatim>\<open>sink < 0\<close> into undefined behaviour.
\<close>

theorem crouse_size_t_infeasible:
  "solve_rlap_size_t 2 2 [PInf, PInf, Fin 1, Fin 2] False [7, 7] [8, 8] = Some Undefined_behaviour \<and>
   solve_rlapf_size_t 2 2 [PInf, PInf, Fin 1, Fin 2] False [7, 7] [8, 8] = Some Undefined_behaviour \<and>
   solve_rlap 2 2 [PInf, PInf, Fin 1, Fin 2] False [7, 7] [8, 8] =
     Some (Returns RECTANGULAR_LSAP_INFEASIBLE [7, 7] [8, 8]) \<and>
   solve_rlapf 2 2 [PInf, PInf, Fin 1, Fin 2] False [7, 7] [8, 8] =
     Some (Returns RECTANGULAR_LSAP_INFEASIBLE [7, 7] [8, 8])"
  by code_simp

text \<open>
  The Jonker-Volgenant solver has no tie-break that would give the identity on a constant
  matrix: on the \<open>4 \<times> 4\<close> matrix of ones, with \<^verbatim>\<open>v\<close> zero on entry, it answers
  \<open>rowsol = [0, 3, 1, 2]\<close>. So claim C6 holds for the Crouse solver only.
\<close>

theorem jv_constant_4x4_counterexample:
  "solve_lap 4 4 (replicate 16 (Fin 1)) (replicate 4 (Fin 0)) =
     Some (Returned (Fin 4, [0, 3, 1, 2], [0, 2, 3, 1])) \<and>
   solve_lapf 4 4 (replicate 16 (Fin 1)) (replicate 4 (Fin 0)) =
     Some (Returned (Fin 4, [0, 3, 1, 2], [0, 2, 3, 1]))"
  by code_simp

section \<open>The Crouse solver: the dual variables in exact arithmetic\<close>

text \<open>
  With the exact finite arithmetic of this model, the row loop of the Crouse solver keeps
  the duals feasible and the matched pairs tight. The code computes in \<^verbatim>\<open>float\<close> or \<^verbatim>\<open>double\<close>
  and rounds, so the lemmas of this section speak of the code only for matrices on which no
  sum or difference is rounded; no claim is settled by them. The lemmas follow the code: one
  pass over the remaining columns, one step of the search, the search, the update of the
  duals, the walk back from the sink, the row loop.
\<close>

lemma ext_cases: "ext c \<Longrightarrow> (\<And>x. c = Fin x \<Longrightarrow> P) \<Longrightarrow> (c = PInf \<Longrightarrow> P) \<Longrightarrow> P"
  by (cases c) (auto simp: ext_def)

lemma ext_simps [simp]: "ext (Fin x)" "ext PInf" "\<not> ext NaN" "\<not> ext NInf"
  by (simp_all add: ext_def)

lemma csub_Fin [simp]: "csub (Fin a) (Fin b) = Fin (a - b)" "csub PInf (Fin b) = PInf"
  by (simp_all add: csub_def)

lemma clt_PInf [simp]: "clt PInf c = False"
  by (cases c) simp_all

lemma clt_ext_trans: "ext a \<Longrightarrow> ext b \<Longrightarrow> ext c \<Longrightarrow> clt a b \<Longrightarrow> \<not> clt c b \<Longrightarrow> \<not> clt c a"
  by (cases a; cases b; cases c) auto

lemma clt_irrefl [simp]: "\<not> clt a a"
  by (cases a) simp_all

lemma ceq_ext: "ext a \<Longrightarrow> ceq a b = (a = b)"
  by (auto simp: ceq_def ext_def)

lemma relaxed_Fin:
  "cm ! (i * nc + j) = Fin c \<Longrightarrow> u s ! i = Fin a \<Longrightarrow> v s ! j = Fin b \<Longrightarrow>
   relaxed nc cm s i (Fin m) j = Fin (m + c - a - b)"
  by (simp add: relaxed_def)

lemma relaxed_PInf:
  "cm ! (i * nc + j) = PInf \<Longrightarrow> u s ! i = Fin a \<Longrightarrow> v s ! j = Fin b \<Longrightarrow>
   relaxed nc cm s i (Fin m) j = PInf"
  by (simp add: relaxed_def)

lemma relaxed_ext:
  "ext (cm ! (i * nc + j)) \<Longrightarrow> u s ! i = Fin a \<Longrightarrow> v s ! j = Fin b \<Longrightarrow>
   ext (relaxed nc cm s i (Fin m) j)"
  by (erule ext_cases) (simp_all add: relaxed_Fin relaxed_PInf)

lemma scan_fold:
  assumes rho: "\<And>it. it < q \<Longrightarrow> remaining s ! it = int (rho it) \<and> rho it < nc"
    and inj: "inj_on rho {..<q}"
    and len: "length (shortestPathCosts s) = nc" "length (path s) = nc"
    and spc: "\<And>j. j < nc \<Longrightarrow> ext (shortestPathCosts s ! j)"
    and rel: "\<And>j. j < nc \<Longrightarrow> ext (relaxed nc cm s i mv j)"
    and "t \<le> q"
  shows "scan_post nc cm i mv rho t s
           (fold (scan_step k nc cm (int i) mv) [0..<t] (s, PInf, idx_cast k (- 1)))"
  using \<open>t \<le> q\<close>
proof (induction t)
  case 0
  show ?case by (simp add: scan_post_def)
next
  case (Suc t)
  then have t: "t < q" by simp
  define res where "res = fold (scan_step k nc cm (int i) mv) [0..<t] (s, PInf, idx_cast k (- 1))"
  define s1 where "s1 = fst res"
  define lo where "lo = fst (snd res)"
  define ix where "ix = snd (snd res)"
  have res: "res = (s1, lo, ix)" by (simp add: s1_def lo_def ix_def)
  from Suc have post: "scan_post nc cm i mv rho t s (s1, lo, ix)"
    by (simp add: res_def[symmetric] res)
  define j where "j = rho t"
  have j: "j < nc" "remaining s ! t = int j" using rho[OF t] by (simp_all add: j_def)
  have jnew: "j \<notin> rho ` {..<t}"
  proof
    assume "j \<in> rho ` {..<t}"
    then obtain it where "it < t" "rho it = rho t" by (auto simp: j_def)
    with inj t show False by (auto simp: inj_on_def)
  qed
  have frame: "u s1 = u s" "v s1 = v s" "row4col s1 = row4col s" "remaining s1 = remaining s"
    "length (path s1) = nc" "length (shortestPathCosts s1) = nc"
    using post len by (simp_all add: scan_post_def)
  have old: "shortestPathCosts s1 ! j = shortestPathCosts s ! j" "path s1 ! j = path s ! j"
    using post j jnew by (simp_all add: scan_post_def)
  define rj where "rj = relaxed nc cm s i mv j"
  have rj: "csub (csub (cadd mv (cm ! (i * nc + j))) (u s ! i)) (v s ! j) = rj"
    by (simp add: rj_def relaxed_def)
  define s2 where "s2 = (if clt rj (shortestPathCosts s ! j)
               then s1\<lparr>path := (path s1)[j := int i],
                      shortestPathCosts := (shortestPathCosts s1)[j := rj]\<rparr>
               else s1)"
  define x where "x = shortestPathCosts s2 ! j"
  have step: "scan_step k nc cm (int i) mv t (s1, lo, ix) =
     (if clt x lo \<or> (ceq x lo \<and> row4col s ! j = idx_cast k (- 1)) then (s2, x, int t) else (s2, lo, ix))"
    by (auto simp: scan_step_def Let_def frame j rj old s2_def x_def)
  have x: "x = (if clt rj (shortestPathCosts s ! j) then rj else shortestPathCosts s ! j)"
    using frame j by (simp add: x_def s2_def old)
  have extx: "ext x" using x spc[OF j(1)] rel[OF j(1)] by (simp add: rj_def)
  have s2frame: "u s2 = u s" "v s2 = v s" "col4row s2 = col4row s" "row4col s2 = row4col s"
    "SR s2 = SR s" "SC s2 = SC s" "remaining s2 = remaining s"
    "length (path s2) = length (path s)" "length (shortestPathCosts s2) = length (shortestPathCosts s)"
    using post by (simp_all add: s2_def scan_post_def)
  have s2other: "shortestPathCosts s2 ! j' = shortestPathCosts s1 ! j' \<and> path s2 ! j' = path s1 ! j'"
    if "j' \<noteq> j" for j'
    using that by (simp add: s2_def)
  have s2j: "if clt rj (shortestPathCosts s ! j)
             then shortestPathCosts s2 ! j = rj \<and> path s2 ! j = int i
             else shortestPathCosts s2 ! j = shortestPathCosts s ! j \<and> path s2 ! j = path s ! j"
    using frame j by (simp add: s2_def old)
  have prev: "rho it \<noteq> j" if "it < t" for it
    using that jnew by auto
  have untouched: "\<forall>j'<nc. j' \<notin> rho ` {..<Suc t} \<longrightarrow>
         shortestPathCosts s2 ! j' = shortestPathCosts s ! j' \<and> path s2 ! j' = path s ! j'"
  proof (intro allI impI)
    fix j' assume a: "j' < nc" "j' \<notin> rho ` {..<Suc t}"
    then have "j' \<noteq> j" "j' \<notin> rho ` {..<t}" by (auto simp: j_def lessThan_Suc)
    with post a(1) s2other[of j'] show "shortestPathCosts s2 ! j' = shortestPathCosts s ! j' \<and> path s2 ! j' = path s ! j'"
      by (simp add: scan_post_def)
  qed
  have relaxed_all: "\<forall>it<Suc t. (if clt (relaxed nc cm s i mv (rho it)) (shortestPathCosts s ! rho it)
                then shortestPathCosts s2 ! rho it = relaxed nc cm s i mv (rho it) \<and>
                     path s2 ! rho it = int i
                else shortestPathCosts s2 ! rho it = shortestPathCosts s ! rho it \<and>
                     path s2 ! rho it = path s ! rho it)"
  proof (intro allI impI)
    fix it assume "it < Suc t"
    then consider "it < t" | "it = t" by linarith
    then show "(if clt (relaxed nc cm s i mv (rho it)) (shortestPathCosts s ! rho it)
                then shortestPathCosts s2 ! rho it = relaxed nc cm s i mv (rho it) \<and>
                     path s2 ! rho it = int i
                else shortestPathCosts s2 ! rho it = shortestPathCosts s ! rho it \<and>
                     path s2 ! rho it = path s ! rho it)"
    proof cases
      case 1
      with post have "(if clt (relaxed nc cm s i mv (rho it)) (shortestPathCosts s ! rho it)
                then shortestPathCosts s1 ! rho it = relaxed nc cm s i mv (rho it) \<and>
                     path s1 ! rho it = int i
                else shortestPathCosts s1 ! rho it = shortestPathCosts s ! rho it \<and>
                     path s1 ! rho it = path s ! rho it)"
        by (simp add: scan_post_def)
      with s2other[OF prev[OF 1]] show ?thesis by simp
    next
      case 2
      with s2j[unfolded rj_def j_def] show ?thesis by simp
    qed
  qed
  have extlo: "ext lo" using post by (simp add: scan_post_def)
  have lo_le: "\<not> clt (shortestPathCosts s2 ! rho it) lo" if "it < t" for it
    using post that s2other[OF prev[OF that]] by (simp add: scan_post_def)
  have lo_ix: "lo \<noteq> PInf \<Longrightarrow> \<exists>it<t. ix = int it \<and> shortestPathCosts s2 ! rho it = lo"
  proof -
    assume "lo \<noteq> PInf"
    with post obtain it where "it < t" "ix = int it" "shortestPathCosts s1 ! rho it = lo"
      by (auto simp: scan_post_def)
    with s2other[OF prev, of it] show ?thesis by auto
  qed
  have exts2: "ext (shortestPathCosts s2 ! rho it)" if "it \<le> t" for it
  proof (cases "it = t")
    case True
    then show ?thesis using extx by (simp add: x_def j_def)
  next
    case False
    with that have it: "it < t" by simp
    then have "it < q" using t by simp
    from rho[OF this] have r: "rho it < nc" by simp
    have "it < Suc t" using it by simp
    from relaxed_all[rule_format, OF this]
    have "shortestPathCosts s2 ! rho it = relaxed nc cm s i mv (rho it) \<or>
        shortestPathCosts s2 ! rho it = shortestPathCosts s ! rho it"
      by (auto split: if_splits)
    with spc[OF r] rel[OF r] show ?thesis by auto
  qed
  show ?case
  proof (cases "clt x lo \<or> (ceq x lo \<and> row4col s ! j = idx_cast k (- 1))")
    case True
    then have xlo: "clt x lo \<or> x = lo" using extx by (auto simp: ceq_ext)
    have le: "\<not> clt (shortestPathCosts s2 ! rho it) x" if "it < Suc t" for it
    proof (cases "it = t")
      case True
      then show ?thesis by (simp add: x_def j_def)
    next
      case False
      with that have it: "it < t" by simp
      from xlo show ?thesis
      proof
        assume "clt x lo"
        from clt_ext_trans[OF extx extlo exts2 this lo_le[OF it]] it show ?thesis by simp
      next
        assume "x = lo"
        with lo_le[OF it] show ?thesis by simp
      qed
    qed
    have "fold (scan_step k nc cm (int i) mv) [0..<Suc t] (s, PInf, idx_cast k (- 1)) = (s2, x, int t)"
      by (simp add: res_def[symmetric] res step if_P[OF True])
    moreover have "scan_post nc cm i mv rho (Suc t) s (s2, x, int t)"
      unfolding scan_post_def Let_def fst_conv snd_conv
      using s2frame untouched relaxed_all extx le
      by (auto simp: x_def j_def intro!: exI[of _ t])
    ultimately show ?thesis by simp
  next
    case False
    then have nlt: "\<not> clt x lo" by simp
    have le: "\<not> clt (shortestPathCosts s2 ! rho it) lo" if "it < Suc t" for it
    proof (cases "it = t")
      case True
      then show ?thesis using nlt by (simp add: x_def j_def)
    next
      case False
      with that have "it < t" by simp
      then show ?thesis by (rule lo_le)
    qed
    have ex: "lo \<noteq> PInf \<longrightarrow> (\<exists>it<Suc t. ix = int it \<and> shortestPathCosts s2 ! rho it = lo)"
      using lo_ix by (auto simp: less_Suc_eq)
    have "fold (scan_step k nc cm (int i) mv) [0..<Suc t] (s, PInf, idx_cast k (- 1)) = (s2, lo, ix)"
      by (simp add: res_def[symmetric] res step if_not_P[OF False])
    moreover have "scan_post nc cm i mv rho (Suc t) s (s2, lo, ix)"
      unfolding scan_post_def Let_def fst_conv snd_conv
      using s2frame untouched relaxed_all extlo le ex
      by blast
    ultimately show ?thesis by simp
  qed
qed

lemma isfin_val: "isfin c \<Longrightarrow> c = Fin (val c)"
  by (auto simp: isfin_def)

lemma isfin_Fin [simp]: "isfin (Fin x)"
  by (simp add: isfin_def)

lemma remaining_remove:
  assumes rho: "\<forall>it<q. rem ! it = int (rho it) \<and> rho it < nc" and inj: "inj_on rho {..<q}"
    and it0: "it0 < q" and len: "q \<le> length rem"
  defines "rho' \<equiv> rho(it0 := rho (q - 1))"
  shows "(\<forall>it<q - 1. rem[it0 := rem ! (q - 1)] ! it = int (rho' it) \<and> rho' it < nc) \<and>
         inj_on rho' {..<q - 1} \<and> rho' ` {..<q - 1} = rho ` {..<q} - {rho it0}"
proof (intro conjI allI impI)
  fix it assume it: "it < q - 1"
  show "rem[it0 := rem ! (q - 1)] ! it = int (rho' it)"
    using it it0 len rho by (auto simp: rho'_def nth_list_update)
  show "rho' it < nc"
    using it it0 rho by (auto simp: rho'_def)
next
  show "inj_on rho' {..<q - 1}"
  proof (rule inj_onI)
    fix a b assume ab: "a \<in> {..<q - 1}" "b \<in> {..<q - 1}" "rho' a = rho' b"
    then have lt: "a < q" "b < q" "a \<noteq> q - 1" "b \<noteq> q - 1" "q - 1 < q" by auto
    show "a = b"
    proof (cases "a = it0")
      case True
      show ?thesis
      proof (cases "b = it0")
        case True
        with \<open>a = it0\<close> show ?thesis by simp
      next
        case False
        with True ab(3) have "rho (q - 1) = rho b" by (simp add: rho'_def)
        with inj lt have "q - 1 = b" by (auto simp: inj_on_def)
        with lt show ?thesis by simp
      qed
    next
      case False
      show ?thesis
      proof (cases "b = it0")
        case True
        with False ab(3) have "rho a = rho (q - 1)" by (simp add: rho'_def)
        with inj lt have "a = q - 1" by (auto simp: inj_on_def)
        with lt show ?thesis by simp
      next
        case bF: False
        with False ab(3) have "rho a = rho b" by (simp add: rho'_def)
        with inj lt show ?thesis by (auto simp: inj_on_def)
      qed
    qed
  qed
next
  show "rho' ` {..<q - 1} = rho ` {..<q} - {rho it0}"
  proof (intro set_eqI iffI)
    fix x assume "x \<in> rho' ` {..<q - 1}"
    then obtain a where a: "a < q - 1" "x = rho' a" by auto
    show "x \<in> rho ` {..<q} - {rho it0}"
    proof (cases "a = it0")
      case True
      then have x: "x = rho (q - 1)" using a by (simp add: rho'_def)
      have "rho (q - 1) \<noteq> rho it0"
      proof
        assume "rho (q - 1) = rho it0"
        with inj it0 have "q - 1 = it0" by (auto simp: inj_on_def)
        with True a show False by simp
      qed
      with x it0 show ?thesis by auto
    next
      case False
      then have x: "x = rho a" using a by (simp add: rho'_def)
      have "rho a \<noteq> rho it0"
      proof
        assume "rho a = rho it0"
        with inj it0 a have "a = it0" by (auto simp: inj_on_def)
        with False show False by simp
      qed
      with x a show ?thesis by auto
    qed
  next
    fix x assume "x \<in> rho ` {..<q} - {rho it0}"
    then obtain a where a: "a < q" "x = rho a" "rho a \<noteq> rho it0" by auto
    then have neq: "a \<noteq> it0" by auto
    show "x \<in> rho' ` {..<q - 1}"
    proof (cases "a = q - 1")
      case True
      then have "it0 < q - 1" using it0 neq by simp
      moreover have "rho' it0 = x" using a True by (simp add: rho'_def)
      ultimately show ?thesis by auto
    next
      case False
      then have "a < q - 1" using a by simp
      moreover have "rho' a = x" using a neq by (simp add: rho'_def)
      ultimately show ?thesis by auto
    qed
  qed
qed

lemma row_inv_frame:
  assumes "row_inv k nr nc cm r s"
    and "u s' = u s" "v s' = v s" "col4row s' = col4row s" "row4col s' = row4col s"
    and "length (shortestPathCosts s') = nc" "length (path s') = nc" "length (SR s') = nr"
      "length (SC s') = nc" "length (remaining s') = nc"
  shows "row_inv k nr nc cm r s'"
  using assms
  by (simp add: row_inv_def ri_len_def ri_fin_def ri_rest_def ri_match_def ri_feas_def ri_tight_def)

lemma clt_Fin_ext: "ext c \<Longrightarrow> \<not> clt (Fin b) c \<Longrightarrow> \<exists>x. c = Fin x \<and> x \<le> b"
  by (erule ext_cases) auto

lemma clt_Fin_lt: "clt c (Fin b) \<Longrightarrow> ext c \<Longrightarrow> \<exists>x. c = Fin x \<and> x < b"
  by (erule ext_cases) auto

text \<open>The facts about one pass of the search that the invariant is rebuilt from.\<close>

lemma sink_scan_facts:
  assumes base: "row_inv k nr nc cm r s" and valid: "\<forall>i<nr. \<forall>j<nc. ext (cell cm nc i j)"
    and inv: "sink_inv k nr nc cm r s i m q"
  defines "scanned \<equiv> scan_remaining k nc cm (int i) (Fin m) q (s\<lparr>SR := (SR s)[i := True]\<rparr>)"
  defines "s2 \<equiv> fst scanned" and "lowest \<equiv> fst (snd scanned)" and "index \<equiv> snd (snd scanned)"
  defines "rel \<equiv> \<lambda>j. relaxed nc cm s i (Fin m) j"
  shows "u s2 = u s \<and> v s2 = v s \<and> col4row s2 = col4row s \<and> row4col s2 = row4col s \<and>
         SR s2 = (SR s)[i := True] \<and> SC s2 = SC s \<and> remaining s2 = remaining s \<and>
         length (path s2) = nc \<and> length (shortestPathCosts s2) = nc"
    and "\<forall>j<nc. SC s ! j \<longrightarrow>
           shortestPathCosts s2 ! j = shortestPathCosts s ! j \<and> path s2 ! j = path s ! j"
    and "\<forall>j<nc. \<not> SC s ! j \<longrightarrow>
           (if clt (rel j) (shortestPathCosts s ! j)
            then shortestPathCosts s2 ! j = rel j \<and> path s2 ! j = int i
            else shortestPathCosts s2 ! j = shortestPathCosts s ! j \<and> path s2 ! j = path s ! j)"
    and "ext lowest"
    and "\<forall>j<nc. \<not> SC s ! j \<longrightarrow> \<not> clt (shortestPathCosts s2 ! j) lowest"
    and "lowest \<noteq> PInf \<longrightarrow>
           (\<exists>it<q. index = int it \<and> (\<exists>j<nc. remaining s ! it = int j \<and> \<not> SC s ! j \<and>
               shortestPathCosts s2 ! j = lowest))"
    and "\<forall>j<nc. ext (rel j)"
proof -
  let ?s0 = "s\<lparr>SR := (SR s)[i := True]\<rparr>"
  from inv have "si_cols nc s q" by (simp add: sink_inv_def)
  then obtain rho where rho: "\<forall>it<q. remaining s ! it = int (rho it) \<and> rho it < nc"
    and inj: "inj_on rho {..<q}" and img: "rho ` {..<q} = {j. j < nc \<and> \<not> SC s ! j}"
    unfolding si_cols_def by blast
  have i: "i < nr" using inv by (simp add: sink_inv_def)
  have "ri_len nr nc s" using base by (simp add: row_inv_def)
  then have len: "length (shortestPathCosts s) = nc" "length (path s) = nc"
    by (simp_all add: ri_len_def)
  have "\<forall>j<nc. ext (shortestPathCosts s ! j)" using inv by (simp add: sink_inv_def)
  then have spc: "\<And>j. j < nc \<Longrightarrow> ext (shortestPathCosts s ! j)" by simp
  have fin: "ri_fin nr nc s" using base by (simp add: row_inv_def)
  have ui: "u s ! i = Fin (val (u s ! i))"
    using fin i by (intro isfin_val) (simp add: ri_fin_def)
  have vj: "\<And>j. j < nc \<Longrightarrow> v s ! j = Fin (val (v s ! j))"
    using fin by (intro isfin_val) (simp add: ri_fin_def)
  have rel0: "relaxed nc cm ?s0 i (Fin m) j = rel j" for j
    by (simp add: rel_def relaxed_def)
  show extrel: "\<forall>j<nc. ext (rel j)"
  proof (intro allI impI)
    fix j assume j: "j < nc"
    have "ext (cm ! (i * nc + j))" using valid i j by (simp add: cell_def)
    from relaxed_ext[OF this ui vj[OF j]] show "ext (rel j)" by (simp add: rel_def)
  qed
  have post: "scan_post nc cm i (Fin m) rho q ?s0 scanned"
    unfolding scanned_def scan_remaining_def
  proof (rule scan_fold[where q = q])
    show "\<And>it. it < q \<Longrightarrow> remaining ?s0 ! it = int (rho it) \<and> rho it < nc"
      using rho by simp
    show "inj_on rho {..<q}" by (rule inj)
    show "length (shortestPathCosts ?s0) = nc" "length (path ?s0) = nc" using len by simp_all
    show "\<And>j. j < nc \<Longrightarrow> ext (shortestPathCosts ?s0 ! j)" using spc by simp
    show "\<And>j. j < nc \<Longrightarrow> ext (relaxed nc cm ?s0 i (Fin m) j)" using extrel rel0 by simp
    show "q \<le> q" by simp
  qed
  then have P: "u s2 = u ?s0" "v s2 = v ?s0" "col4row s2 = col4row ?s0" "row4col s2 = row4col ?s0"
      "SR s2 = SR ?s0" "SC s2 = SC ?s0" "remaining s2 = remaining ?s0"
      "length (path s2) = length (path ?s0)"
      "length (shortestPathCosts s2) = length (shortestPathCosts ?s0)"
      "\<forall>j<nc. j \<notin> rho ` {..<q} \<longrightarrow>
         shortestPathCosts s2 ! j = shortestPathCosts ?s0 ! j \<and> path s2 ! j = path ?s0 ! j"
      "\<forall>it<q. (if clt (relaxed nc cm ?s0 i (Fin m) (rho it)) (shortestPathCosts ?s0 ! rho it)
                then shortestPathCosts s2 ! rho it = relaxed nc cm ?s0 i (Fin m) (rho it) \<and>
                     path s2 ! rho it = int i
                else shortestPathCosts s2 ! rho it = shortestPathCosts ?s0 ! rho it \<and>
                     path s2 ! rho it = path ?s0 ! rho it)"
      "ext lowest"
      "\<forall>it<q. \<not> clt (shortestPathCosts s2 ! rho it) lowest"
      "lowest \<noteq> PInf \<longrightarrow> (\<exists>it<q. index = int it \<and> shortestPathCosts s2 ! rho it = lowest)"
    unfolding scan_post_def Let_def s2_def lowest_def index_def by simp_all
  show "u s2 = u s \<and> v s2 = v s \<and> col4row s2 = col4row s \<and> row4col s2 = row4col s \<and>
         SR s2 = (SR s)[i := True] \<and> SC s2 = SC s \<and> remaining s2 = remaining s \<and>
         length (path s2) = nc \<and> length (shortestPathCosts s2) = nc"
    using P(1-9) len by simp
  show "\<forall>j<nc. SC s ! j \<longrightarrow>
           shortestPathCosts s2 ! j = shortestPathCosts s ! j \<and> path s2 ! j = path s ! j"
  proof (intro allI impI)
    fix j assume j: "j < nc" "SC s ! j"
    then have "j \<notin> rho ` {..<q}" using img by auto
    with P(10) j show "shortestPathCosts s2 ! j = shortestPathCosts s ! j \<and> path s2 ! j = path s ! j"
      by simp
  qed
  have un: "\<exists>it<q. rho it = j" if "j < nc" "\<not> SC s ! j" for j
  proof -
    from that have "j \<in> rho ` {..<q}" using img by auto
    then show ?thesis by auto
  qed
  show "\<forall>j<nc. \<not> SC s ! j \<longrightarrow>
           (if clt (rel j) (shortestPathCosts s ! j)
            then shortestPathCosts s2 ! j = rel j \<and> path s2 ! j = int i
            else shortestPathCosts s2 ! j = shortestPathCosts s ! j \<and> path s2 ! j = path s ! j)"
  proof (intro allI impI)
    fix j assume j: "j < nc" "\<not> SC s ! j"
    from un[OF j] obtain it where it: "it < q" "rho it = j" by blast
    from P(11)[rule_format, OF it(1)] show "(if clt (rel j) (shortestPathCosts s ! j)
            then shortestPathCosts s2 ! j = rel j \<and> path s2 ! j = int i
            else shortestPathCosts s2 ! j = shortestPathCosts s ! j \<and> path s2 ! j = path s ! j)"
      unfolding it(2) rel0 by simp
  qed
  show "ext lowest" by (rule P(12))
  show "\<forall>j<nc. \<not> SC s ! j \<longrightarrow> \<not> clt (shortestPathCosts s2 ! j) lowest"
  proof (intro allI impI)
    fix j assume j: "j < nc" "\<not> SC s ! j"
    from un[OF j] obtain it where it: "it < q" "rho it = j" by blast
    from P(13)[rule_format, OF it(1)] show "\<not> clt (shortestPathCosts s2 ! j) lowest"
      unfolding it(2) .
  qed
  show "lowest \<noteq> PInf \<longrightarrow>
           (\<exists>it<q. index = int it \<and> (\<exists>j<nc. remaining s ! it = int j \<and> \<not> SC s ! j \<and>
               shortestPathCosts s2 ! j = lowest))"
  proof
    assume "lowest \<noteq> PInf"
    with P(14) obtain it where it: "it < q" "index = int it" "shortestPathCosts s2 ! rho it = lowest"
      by blast
    have "rho it \<in> rho ` {..<q}" using it(1) by simp
    then have "rho it < nc" "\<not> SC s ! rho it" using img by auto
    with it rho show "\<exists>it<q. index = int it \<and> (\<exists>j<nc. remaining s ! it = int j \<and> \<not> SC s ! j \<and>
               shortestPathCosts s2 ! j = lowest)"
      by blast
  qed
qed

lemma list_update_True: "i' < length xs \<Longrightarrow> xs ! i' \<Longrightarrow> xs[a := True] ! i'"
  by (cases "a = i'") simp_all

lemma sink_step:
  assumes base: "row_inv k nr nc cm r s" and valid: "\<forall>i<nr. \<forall>j<nc. ext (cell cm nc i j)"
    and r: "r < nr"
    and inv: "sink_inv k nr nc cm r s i m q"
  defines "scanned \<equiv> scan_remaining k nc cm (int i) (Fin m) q (s\<lparr>SR := (SR s)[i := True]\<rparr>)"
  defines "s2 \<equiv> fst scanned" and "lowest \<equiv> fst (snd scanned)" and "index \<equiv> snd (snd scanned)"
  shows "lowest = PInf \<or>
     (\<exists>m' it0 j. lowest = Fin m' \<and> index = int it0 \<and> it0 < q \<and> remaining s2 ! it0 = int j \<and> j < nc \<and>
        row_inv k nr nc cm r
          (s2\<lparr>SC := (SC s2)[j := True], remaining := (remaining s2)[it0 := remaining s2 ! (q - 1)]\<rparr>) \<and>
        (if row4col s2 ! j = idx_cast k (- 1)
         then sink_post k nr nc cm r
                (s2\<lparr>SC := (SC s2)[j := True], remaining := (remaining s2)[it0 := remaining s2 ! (q - 1)]\<rparr>) j m'
         else \<exists>i'. row4col s2 ! j = int i' \<and>
                sink_inv k nr nc cm r
                  (s2\<lparr>SC := (SC s2)[j := True], remaining := (remaining s2)[it0 := remaining s2 ! (q - 1)]\<rparr>)
                  i' m' (q - 1)))"
proof (cases "lowest = PInf")
  case True
  then show ?thesis by simp
next
  case False
  define rel where "rel = (\<lambda>j. relaxed nc cm s i (Fin m) j)"
  note facts = sink_scan_facts[OF base valid inv, folded scanned_def, folded s2_def lowest_def index_def rel_def]
  have frame: "u s2 = u s" "v s2 = v s" "col4row s2 = col4row s" "row4col s2 = row4col s"
    "SR s2 = (SR s)[i := True]" "SC s2 = SC s" "remaining s2 = remaining s"
    "length (path s2) = nc" "length (shortestPathCosts s2) = nc"
    using facts(1) by simp_all
  note Fsc = facts(2) and Fun = facts(3) and extlow = facts(4) and Flow = facts(5)
    and Fidx = facts(6) and extrel = facts(7)
  from extlow False obtain m' where m': "lowest = Fin m'"
    by (auto elim: ext_cases)
  from Fidx False obtain it0 j where it0: "it0 < q" "index = int it0"
    and j: "j < nc" "remaining s ! it0 = int j" "\<not> SC s ! j" "shortestPathCosts s2 ! j = Fin m'"
    unfolding m' by blast
  define s3 where "s3 = s2\<lparr>SC := (SC s2)[j := True],
      remaining := (remaining s2)[it0 := remaining s2 ! (q - 1)]\<rparr>"
  have len: "ri_len nr nc s" using base by (simp add: row_inv_def)
  then have lens: "length (u s) = nr" "length (v s) = nc" "length (shortestPathCosts s) = nc"
    "length (path s) = nc" "length (col4row s) = nr" "length (row4col s) = nc"
    "length (SR s) = nr" "length (SC s) = nc" "length (remaining s) = nc"
    by (simp_all add: ri_len_def)
  have i: "i < nr" and q: "q \<le> nc" and nsr: "\<not> SR s ! i"
    using inv by (simp_all add: sink_inv_def)
  have f3: "u s3 = u s" "v s3 = v s" "col4row s3 = col4row s" "row4col s3 = row4col s"
    "SR s3 = (SR s)[i := True]" "SC s3 = (SC s)[j := True]"
    "shortestPathCosts s3 = shortestPathCosts s2" "path s3 = path s2"
    "remaining s3 = (remaining s)[it0 := remaining s ! (q - 1)]"
    by (simp_all add: s3_def frame)
  have base3: "row_inv k nr nc cm r s3"
    by (rule row_inv_frame[OF base]) (simp_all add: f3 frame lens)
  have SR3: "SR s3 ! i' = (SR s ! i' \<or> i' = i)" if "i' < nr" for i'
    using that lens(7) by (cases "i' = i") (simp_all add: f3 nth_list_update)
  have SC3: "SC s3 ! j' = (SC s ! j' \<or> j' = j)" if "j' < nc" for j'
    using that lens(8) by (cases "j' = j") (simp_all add: f3 nth_list_update)
  have fin: "ri_fin nr nc s" using base by (simp add: row_inv_def)
  have ui: "u s ! i = Fin (val (u s ! i))"
    using fin i by (intro isfin_val) (simp add: ri_fin_def)
  have vj: "v s ! j' = Fin (val (v s ! j'))" if "j' < nc" for j'
    using fin that by (intro isfin_val) (simp add: ri_fin_def)
  have relF: "rel j' = Fin (m + c - val (u s ! i) - val (v s ! j'))"
    if "j' < nc" "cell cm nc i j' = Fin c" for j' c
    unfolding rel_def using that(2) ui vj[OF that(1)]
    by (intro relaxed_Fin) (simp_all add: cell_def)
  have relP: "rel j' = PInf" if "j' < nc" "cell cm nc i j' = PInf" for j'
    unfolding rel_def using that(2) ui vj[OF that(1)]
    by (intro relaxed_PInf[where a = "val (u s ! i)" and b = "val (v s ! j')"]) (simp_all add: cell_def)
  have rel_fin: "\<exists>c. cell cm nc i j' = Fin c \<and> x = m + c - val (u s ! i) - val (v s ! j')"
    if "j' < nc" "rel j' = Fin x" for j' x
  proof -
    have "ext (cell cm nc i j')" using valid i that(1) by simp
    then show ?thesis
    proof (rule ext_cases)
      fix c assume c: "cell cm nc i j' = Fin c"
      with relF[OF that(1) c] that(2) show ?thesis by simp
    next
      assume "cell cm nc i j' = PInf"
      with relP[OF that(1)] that(2) show ?thesis by simp
    qed
  qed
  have Csc: "shortestPathCosts s3 ! j' = shortestPathCosts s ! j' \<and> path s3 ! j' = path s ! j'"
    if "j' < nc" "SC s ! j'" for j'
    using Fsc that by (simp add: f3)
  have Cun: "(clt (rel j') (shortestPathCosts s ! j') \<and> shortestPathCosts s3 ! j' = rel j' \<and>
              path s3 ! j' = int i) \<or>
             (\<not> clt (rel j') (shortestPathCosts s ! j') \<and>
              shortestPathCosts s3 ! j' = shortestPathCosts s ! j' \<and> path s3 ! j' = path s ! j')"
    if "j' < nc" "\<not> SC s ! j'" for j'
    using Fun[rule_format, OF that] by (auto simp: f3 split: if_splits)
  have exts: "ext (shortestPathCosts s ! j')" if "j' < nc" for j'
    using inv that by (simp add: sink_inv_def)
  have ext3: "\<forall>j'<nc. ext (shortestPathCosts s3 ! j')"
  proof (intro allI impI)
    fix j' assume j': "j' < nc"
    show "ext (shortestPathCosts s3 ! j')"
    proof (cases "SC s ! j'")
      case True
      with Csc[OF j'] exts[OF j'] show ?thesis by simp
    next
      case False
      with Cun[OF j'] exts[OF j'] extrel j' show ?thesis by auto
    qed
  qed
  have cur: "si_cur nr nc r s i m" using inv by (simp add: sink_inv_def)
  have rows: "si_rows nr nc r s" using inv by (simp add: sink_inv_def)
  have cle: "si_cost_le nc s m" using inv by (simp add: sink_inv_def)
  have cge: "si_cost_ge nc s m" using inv by (simp add: sink_inv_def)
  have relax: "si_relax nr nc cm r s" using inv by (simp add: sink_inv_def)
  have pth: "si_path nr nc cm r s" using inv by (simp add: sink_inv_def)
  have scols: "si_scanned_cols nc r (s\<lparr>SR := (SR s)[i := True]\<rparr>) {}"
    using inv by (simp add: sink_inv_def)
  have colrow: "\<exists>i'<r. row4col s ! j' = int i' \<and> (SR s ! i' \<or> i' = i)"
    if "j' < nc" "SC s ! j'" for j'
  proof -
    from scols that obtain i' where "i' < r" "row4col s ! j' = int i'" "(SR s)[i := True] ! i'"
      unfolding si_scanned_cols_def by auto
    moreover from this r lens have "SR s ! i' \<or> i' = i" by (auto simp: nth_list_update split: if_splits)
    ultimately show ?thesis by blast
  qed
  have sc_not_first: "i < r \<and> SR s ! r \<and>
       (\<exists>j0<nc. col4row s ! i = int j0 \<and> SC s ! j0 \<and> shortestPathCosts s ! j0 = Fin m)"
    if "j' < nc" "SC s ! j'" for j'
    using cur that unfolding si_cur_def by auto
  have feas_i: "val (u s ! i) + val (v s ! j') \<le> c"
    if "i \<noteq> r" "j' < nc" "cell cm nc i j' = Fin c" for j' c
  proof -
    from cur that(1) have "i < r" unfolding si_cur_def by auto
    moreover have "ri_feas nc cm r s" using base by (simp add: row_inv_def)
    ultimately show ?thesis using that(2,3) unfolding ri_feas_def by blast
  qed
  have disti: "row_dist r s i = m"
  proof (cases "i = r")
    case True
    with cur show ?thesis unfolding si_cur_def row_dist_def by auto
  next
    case False
    with cur obtain j0 where "j0 < nc" "col4row s ! i = int j0" "shortestPathCosts s ! j0 = Fin m"
      unfolding si_cur_def by auto
    with False show ?thesis by (simp add: row_dist_def)
  qed
  have rowcol: "i' = r \<or> (i' < r \<and> (\<exists>j'<nc. col4row s ! i' = int j' \<and> SC s ! j'))"
    if "i' < nr" "SR s3 ! i'" for i'
  proof (cases "i' = i")
    case True
    with cur show ?thesis unfolding si_cur_def by auto
  next
    case False
    with SR3[OF that(1)] that(2) have "SR s ! i'" by simp
    with rows that(1) show ?thesis unfolding si_rows_def by blast
  qed
  have dist3: "row_dist r s3 i' = row_dist r s i'" if "i' < nr" "SR s3 ! i'" for i'
  proof (cases "i' = r")
    case True
    then show ?thesis by (simp add: row_dist_def)
  next
    case False
    with rowcol[OF that] obtain j' where "j' < nc" "col4row s ! i' = int j'" "SC s ! j'" by auto
    with Csc[of j'] False show ?thesis by (simp add: row_dist_def f3)
  qed
  have mono: "m \<le> m'" if "j' < nc" "SC s ! j'" for j'
  proof -
    from sc_not_first[OF that] have ir: "i \<noteq> r" by auto
    from Cun[OF j(1) j(3)] show ?thesis
    proof (elim disjE conjE)
      assume "shortestPathCosts s3 ! j = rel j"
      with j(4) have "rel j = Fin m'" by (simp add: f3)
      from rel_fin[OF j(1) this] obtain c where c: "cell cm nc i j = Fin c"
        "m' = m + c - val (u s ! i) - val (v s ! j)" by blast
      from feas_i[OF ir j(1) c(1)] c(2) show ?thesis by simp
    next
      assume "shortestPathCosts s3 ! j = shortestPathCosts s ! j"
      with j(4) have "shortestPathCosts s ! j = Fin m'" by (simp add: f3)
      with cge j(1) j(3) show ?thesis unfolding si_cost_ge_def by blast
    qed
  qed
  have cle3: "si_cost_le nc s3 m'"
    unfolding si_cost_le_def
  proof (intro allI impI)
    fix j' assume j': "j' < nc" "SC s3 ! j'"
    show "\<exists>x. shortestPathCosts s3 ! j' = Fin x \<and> x \<le> m'"
    proof (cases "j' = j")
      case True
      with j(4) show ?thesis by (simp add: f3)
    next
      case False
      with SC3[OF j'(1)] j'(2) have sc: "SC s ! j'" by simp
      with cle j'(1) obtain x where "shortestPathCosts s ! j' = Fin x" "x \<le> m"
        unfolding si_cost_le_def by blast
      with Csc[OF j'(1) sc] mono[OF j'(1) sc] show ?thesis by auto
    qed
  qed
  have rows3: "si_rows nr nc r s3"
    unfolding si_rows_def
  proof (intro allI impI)
    fix i' assume i': "i' < nr" "SR s3 ! i'"
    from rowcol[OF this] show "i' = r \<or> (i' < r \<and> (\<exists>j'<nc. col4row s3 ! i' = int j' \<and> SC s3 ! j'))"
      using SC3 by (auto simp: f3)
  qed
  have cge3: "si_cost_ge nc s3 m'"
    unfolding si_cost_ge_def
  proof (intro allI impI)
    fix j' x assume j': "j' < nc" "\<not> SC s3 ! j'" "shortestPathCosts s3 ! j' = Fin x"
    from SC3[OF j'(1)] j'(2) have "\<not> SC s ! j'" by simp
    with Flow j'(1) have "\<not> clt (shortestPathCosts s2 ! j') lowest" by blast
    with j'(3) show "m' \<le> x" by (simp add: m' f3)
  qed
  have relax3: "si_relax nr nc cm r s3"
    unfolding si_relax_def
  proof (intro allI impI)
    fix i' j' c assume a: "i' < nr" "SR s3 ! i'" "j' < nc" "cell cm nc i' j' = Fin c"
    let ?b = "row_dist r s i' + c - val (u s ! i') - val (v s ! j')"
    have "\<exists>x. shortestPathCosts s3 ! j' = Fin x \<and> x \<le> ?b"
    proof (cases "i' = i")
      case True
      show ?thesis
      proof (cases "SC s ! j'")
        case sc: True
        from sc_not_first[OF a(3) sc] have "i \<noteq> r" by auto
        from feas_i[OF this a(3)] a(4) True have "val (u s ! i) + val (v s ! j') \<le> c" by simp
        moreover from cle a(3) sc obtain x where "shortestPathCosts s ! j' = Fin x" "x \<le> m"
          unfolding si_cost_le_def by blast
        ultimately show ?thesis using Csc[OF a(3) sc] True disti by auto
      next
        case un: False
        have rj: "rel j' = Fin (m + c - val (u s ! i) - val (v s ! j'))"
          using relF[OF a(3)] a(4) True by simp
        from Cun[OF a(3) un] show ?thesis
        proof (elim disjE conjE)
          assume "shortestPathCosts s3 ! j' = rel j'"
          with rj True disti show ?thesis by simp
        next
          assume n: "\<not> clt (rel j') (shortestPathCosts s ! j')"
            and e: "shortestPathCosts s3 ! j' = shortestPathCosts s ! j'"
          from clt_Fin_ext[OF exts[OF a(3)] n[unfolded rj]] e True disti show ?thesis by auto
        qed
      qed
    next
      case False
      with SR3[OF a(1)] a(2) have sr: "SR s ! i'" by simp
      with relax a obtain x where x: "shortestPathCosts s ! j' = Fin x" "x \<le> ?b"
        unfolding si_relax_def by blast
      show ?thesis
      proof (cases "SC s ! j'")
        case True
        with Csc[OF a(3)] x show ?thesis by auto
      next
        case un: False
        from Cun[OF a(3) un] show ?thesis
        proof (elim disjE conjE)
          assume lt: "clt (rel j') (shortestPathCosts s ! j')"
            and e: "shortestPathCosts s3 ! j' = rel j'"
          have "ext (rel j')" using extrel a(3) by simp
          from clt_Fin_lt[OF lt[unfolded x(1)] this] x(2) e show ?thesis by auto
        next
          assume "shortestPathCosts s3 ! j' = shortestPathCosts s ! j'"
          with x show ?thesis by auto
        qed
      qed
    qed
    then show "\<exists>x. shortestPathCosts s3 ! j' = Fin x \<and>
        x \<le> row_dist r s3 i' + c - val (u s3 ! i') - val (v s3 ! j')"
      using dist3[OF a(1,2)] by (simp add: f3)
  qed
  have pth3: "si_path nr nc cm r s3"
    unfolding si_path_def
  proof (intro allI impI)
    fix j' x assume a: "j' < nc" "shortestPathCosts s3 ! j' = Fin x"
    have old: "\<exists>i'<nr. SR s3 ! i' \<and> path s3 ! j' = int i' \<and>
         (\<exists>c. cell cm nc i' j' = Fin c \<and> x = row_dist r s i' + c - val (u s ! i') - val (v s ! j'))"
      if e: "shortestPathCosts s3 ! j' = shortestPathCosts s ! j'" "path s3 ! j' = path s ! j'"
    proof -
      from e a(2) have "shortestPathCosts s ! j' = Fin x" by simp
      with pth a(1) obtain i' c where "i' < nr" "SR s ! i'" "path s ! j' = int i'"
          "cell cm nc i' j' = Fin c" "x = row_dist r s i' + c - val (u s ! i') - val (v s ! j')"
        unfolding si_path_def by blast
      with SR3[of i'] e(2) show ?thesis by auto
    qed
    have "\<exists>i'<nr. SR s3 ! i' \<and> path s3 ! j' = int i' \<and>
         (\<exists>c. cell cm nc i' j' = Fin c \<and> x = row_dist r s i' + c - val (u s ! i') - val (v s ! j'))"
    proof (cases "SC s ! j'")
      case True
      with Csc[OF a(1)] old show ?thesis by simp
    next
      case un: False
      from Cun[OF a(1) un] show ?thesis
      proof (elim disjE conjE)
        assume e: "shortestPathCosts s3 ! j' = rel j'" "path s3 ! j' = int i"
        with a(2) have "rel j' = Fin x" by simp
        from rel_fin[OF a(1) this] obtain c where "cell cm nc i j' = Fin c"
          "x = m + c - val (u s ! i) - val (v s ! j')" by blast
        with e(2) i SR3[OF i] disti show ?thesis by auto
      next
        assume "shortestPathCosts s3 ! j' = shortestPathCosts s ! j'" "path s3 ! j' = path s ! j'"
        then show ?thesis by (rule old)
      qed
    qed
    then obtain i' c where ic: "i' < nr" "SR s3 ! i'" "path s3 ! j' = int i'"
        "cell cm nc i' j' = Fin c" "x = row_dist r s i' + c - val (u s ! i') - val (v s ! j')"
      by blast
    from dist3[OF ic(1,2)] ic show "\<exists>i'<nr. SR s3 ! i' \<and> path s3 ! j' = int i' \<and>
         (\<exists>c. cell cm nc i' j' = Fin c \<and> x = row_dist r s3 i' + c - val (u s3 ! i') - val (v s3 ! j'))"
      by (auto simp: f3)
  qed
  have srr: "SR s3 ! r"
  proof (cases "i = r")
    case True
    with SR3[OF r] show ?thesis by simp
  next
    case False
    with cur have "SR s ! r" unfolding si_cur_def by auto
    with SR3[OF r] show ?thesis by simp
  qed
  from inv obtain rk where rk: "rk i = nc - q" "\<forall>i'<nr. SR s ! i' \<longrightarrow> rk i' < nc - q"
      "si_rank nc s {} rk"
    unfolding sink_inv_def by blast
  have q0: "0 < q" using it0 by simp
  have s3j: "shortestPathCosts s3 ! j = Fin m'" using j(4) by (simp add: f3)
  have goal_row: "row_inv k nr nc cm r s3" by (rule base3)
  show ?thesis
  proof (cases "row4col s ! j = idx_cast k (- 1)")
    case True
    have sc3: "si_scanned_cols nc r s3 {j}"
      unfolding si_scanned_cols_def
    proof (intro allI impI)
      fix j' assume j': "j' < nc" "SC s3 ! j'" "j' \<notin> {j}"
      with SC3[OF j'(1)] have "SC s ! j'" by simp
      from colrow[OF j'(1) this] obtain i' where i': "i' < r" "row4col s ! j' = int i'"
        "SR s ! i' \<or> i' = i" by blast
      with r SR3[of i'] show "\<exists>i'<r. row4col s3 ! j' = int i' \<and> SR s3 ! i'"
        by (auto simp: f3)
    qed
    have rank3: "si_rank nc s3 {j} rk"
      unfolding si_rank_def
    proof (intro allI impI)
      fix j' a b assume j': "j' < nc" "SC s3 ! j'" "j' \<notin> {j}"
        and ab: "path s3 ! j' = int a" "row4col s3 ! j' = int b"
      from j' SC3[OF j'(1)] have sc: "SC s ! j'" by simp
      with Csc[OF j'(1)] ab have "path s ! j' = int a" "row4col s ! j' = int b" by (simp_all add: f3)
      with rk(3) j'(1) sc show "rk a < rk b" unfolding si_rank_def by blast
    qed
    have "sink_post k nr nc cm r s3 j m'"
      unfolding sink_post_def
      using j(1) True SC3[OF j(1)] s3j srr sc3 cle3 rows3 cge3 relax3 pth3 rank3
      by (auto simp: f3)
    then have post: "sink_post k nr nc cm r s3 j m'" .
    have r4: "row4col s2 ! j = idx_cast k (- 1)" using True by (simp add: frame)
    have rem: "remaining s2 ! it0 = int j" using j(2) by (simp add: frame)
    show ?thesis
      apply (rule disjI2)
      apply (rule exI[of _ m'], rule exI[of _ it0], rule exI[of _ j])
      apply (fold s3_def)
      using m' it0 rem j(1) goal_row post r4 by simp
  next
    case False
    have "ri_match k nc r s" using base by (simp add: row_inv_def)
    with False j(1) obtain inew where inew: "inew < r" "row4col s ! j = int inew"
        "col4row s ! inew = int j"
      unfolding ri_match_def by blast
    have inr: "inew < nr" using inew(1) r by simp
    have notR: "\<not> SR s3 ! inew"
    proof
      assume "SR s3 ! inew"
      from rowcol[OF inr this] inew(1) obtain j' where "j' < nc" "col4row s ! inew = int j'" "SC s ! j'"
        by auto
      with inew(3) j(3) show False by simp
    qed
    have notRs: "\<not> SR s ! inew" "inew \<noteq> i"
      using notR SR3[OF inr] by simp_all
    have cur3: "si_cur nr nc r s3 inew m'"
      unfolding si_cur_def using inew srr j(1) SC3[OF j(1)] s3j by (auto simp: f3)
    have sc3: "si_scanned_cols nc r (s3\<lparr>SR := (SR s3)[inew := True]\<rparr>) {}"
      unfolding si_scanned_cols_def
    proof (intro allI impI)
      fix j' assume j': "j' < nc" "SC (s3\<lparr>SR := (SR s3)[inew := True]\<rparr>) ! j'"
      then have sc: "SC s3 ! j'" by simp
      have l3: "length (SR s3) = nr" by (simp add: f3 lens)
      show "\<exists>i'<r. row4col (s3\<lparr>SR := (SR s3)[inew := True]\<rparr>) ! j' = int i' \<and>
                 SR (s3\<lparr>SR := (SR s3)[inew := True]\<rparr>) ! i'"
      proof (cases "j' = j")
        case True
        with inew inr l3 show ?thesis by (auto simp: f3)
      next
        case False
        with sc SC3[OF j'(1)] have "SC s ! j'" by simp
        from colrow[OF j'(1) this] obtain i' where i': "i' < r" "row4col s ! j' = int i'"
          "SR s ! i' \<or> i' = i" by blast
        then have "i' < nr" using r by simp
        with i' SR3[of i'] have "i' < length (SR s3)" "SR s3 ! i'"
          by (auto simp: l3)
        then have "(SR s3)[inew := True] ! i'" by (rule list_update_True)
        with i' show ?thesis by (auto simp: f3)
      qed
    qed
    have cols3: "si_cols nc s3 (q - 1)"
    proof -
      from inv have "si_cols nc s q" by (simp add: sink_inv_def)
      then obtain rho where rho: "\<forall>it<q. remaining s ! it = int (rho it) \<and> rho it < nc"
        and inj: "inj_on rho {..<q}" and img: "rho ` {..<q} = {j. j < nc \<and> \<not> SC s ! j}"
        unfolding si_cols_def by blast
      have rj: "rho it0 = j" using rho it0(1) j(2) by auto
      have ql: "q \<le> length (remaining s)" using q lens by simp
      from remaining_remove[OF rho inj it0(1) ql]
      have R: "\<forall>it<q - 1. (remaining s)[it0 := remaining s ! (q - 1)] ! it =
                 int ((rho(it0 := rho (q - 1))) it) \<and> (rho(it0 := rho (q - 1))) it < nc"
        "inj_on (rho(it0 := rho (q - 1))) {..<q - 1}"
        "(rho(it0 := rho (q - 1))) ` {..<q - 1} = rho ` {..<q} - {rho it0}"
        by blast+
      have "rho ` {..<q} - {rho it0} = {j'. j' < nc \<and> \<not> SC s3 ! j'}"
        unfolding img rj using SC3 by auto
      with R show ?thesis
        unfolding si_cols_def f3 by (intro exI[of _ "rho(it0 := rho (q - 1))"]) simp
    qed
    define rk' where "rk' = rk(inew := nc - (q - 1))"
    have rkR: "rk' i' = rk i' \<and> rk' i' < nc - (q - 1)" if "i' < nr" "SR s3 ! i'" for i'
    proof -
      from that notR have ne: "i' \<noteq> inew" by auto
      from SR3[OF that(1)] that(2) have "SR s ! i' \<or> i' = i" by simp
      with rk(1,2) that(1) have "rk i' \<le> nc - q" by (auto simp: less_imp_le)
      with q q0 have "rk i' < nc - (q - 1)" by arith
      with ne show ?thesis by (simp add: rk'_def)
    qed
    have rank3: "si_rank nc s3 {} rk'"
      unfolding si_rank_def
    proof (intro allI impI)
      fix j' a b assume j': "j' < nc" "SC s3 ! j'" 
        and ab: "path s3 ! j' = int a" "row4col s3 ! j' = int b"
      from cle3 j' obtain x where x: "shortestPathCosts s3 ! j' = Fin x"
        unfolding si_cost_le_def by blast
      with pth3 j'(1) obtain i' where i': "i' < nr" "SR s3 ! i'" "path s3 ! j' = int i'"
        unfolding si_path_def by blast
      with ab have a: "a = i'" by simp
      show "rk' a < rk' b"
      proof (cases "j' = j")
        case True
        with ab inew have "b = inew" by (simp add: f3)
        then have "rk' b = nc - (q - 1)" by (simp add: rk'_def)
        with rkR[OF i'(1,2)] a show ?thesis by simp
      next
        case False
        with SC3[OF j'(1)] j'(2) have sc: "SC s ! j'" by simp
        from colrow[OF j'(1) sc] ab obtain i'' where i'': "i'' < r" "b = i''" "SR s ! i'' \<or> i'' = i"
          by (auto simp: f3)
        then have "i'' < nr" "SR s3 ! i''" using r SR3[of i''] by auto
        from rkR[OF this] i''(2) have b: "rk' b = rk b" by simp
        from Csc[OF j'(1) sc] ab have "path s ! j' = int a" "row4col s ! j' = int b"
          by (simp_all add: f3)
        with rk(3) j'(1) sc have "rk a < rk b" unfolding si_rank_def by blast
        with rkR[OF i'(1,2)] a b show ?thesis by simp
      qed
    qed
    have rk3: "\<exists>rk. rk inew = nc - (q - 1) \<and> (\<forall>i'<nr. SR s3 ! i' \<longrightarrow> rk i' < nc - (q - 1)) \<and>
                 si_rank nc s3 {} rk"
    proof (intro exI[of _ rk'] conjI allI impI)
      show "rk' inew = nc - (q - 1)" by (simp add: rk'_def)
      show "si_rank nc s3 {} rk'" by (rule rank3)
      fix i' assume "i' < nr" "SR s3 ! i'"
      from rkR[OF this] show "rk' i' < nc - (q - 1)" by simp
    qed
    have "q - 1 \<le> nc" using q by simp
    then have "sink_inv k nr nc cm r s3 inew m' (q - 1)"
      unfolding sink_inv_def
      using inr notR cols3 ext3 cur3 sc3 cle3 rows3 cge3 relax3 pth3 rk3
      by blast
    then have sinv: "sink_inv k nr nc cm r s3 inew m' (q - 1)" .
    have r4: "row4col s2 ! j \<noteq> idx_cast k (- 1)" "row4col s2 ! j = int inew"
      using False inew(2) by (simp_all add: frame)
    have rem: "remaining s2 ! it0 = int j" using j(2) by (simp add: frame)
    show ?thesis
      apply (rule disjI2)
      apply (rule exI[of _ m'], rule exI[of _ it0], rule exI[of _ j])
      apply (fold s3_def)
      using m' it0 rem j(1) goal_row sinv r4 by simp
  qed
qed

lemma find_sink_correct:
  assumes valid: "\<forall>i<nr. \<forall>j<nc. ext (cell cm nc i j)" and r: "r < nr"
  shows "row_inv k nr nc cm r s \<Longrightarrow> sink_inv k nr nc cm r s i m q \<Longrightarrow>
     (\<exists>s'. find_sink k nc cm s (int i) (Fin m) q = (idx_cast k (- 1), None, s')) \<or>
     (\<exists>j m' s'. find_sink k nc cm s (int i) (Fin m) q = (int j, Some (Fin m'), s') \<and>
         row_inv k nr nc cm r s' \<and> sink_post k nr nc cm r s' j m')"
proof (induction q arbitrary: s i m rule: less_induct)
  case (less q)
  define scanned where
    "scanned = scan_remaining k nc cm (int i) (Fin m) q (s\<lparr>SR := (SR s)[i := True]\<rparr>)"
  define s2 where "s2 = fst scanned"
  define lowest where "lowest = fst (snd scanned)"
  define index where "index = snd (snd scanned)"
  have unfold: "find_sink k nc cm s (int i) (Fin m) q =
     (if ceq lowest PInf then (idx_cast k (- 1), None, s2)
      else if row4col s2 ! off (remaining s2 ! off index) = idx_cast k (- 1)
           then (remaining s2 ! off index, Some lowest,
                 s2\<lparr>SC := (SC s2)[off (remaining s2 ! off index) := True],
                    remaining := (remaining s2)[off index := remaining s2 ! (q - 1)]\<rparr>)
           else find_sink k nc cm
                  (s2\<lparr>SC := (SC s2)[off (remaining s2 ! off index) := True],
                      remaining := (remaining s2)[off index := remaining s2 ! (q - 1)]\<rparr>)
                  (row4col s2 ! off (remaining s2 ! off index)) lowest (q - 1))"
    apply (subst find_sink.simps)
    apply (simp only: Let_def off_int scanned_def[symmetric])
    apply (simp only: s2_def[symmetric] lowest_def[symmetric] index_def[symmetric])
    done
  from sink_step[OF less.prems(1) valid r less.prems(2), folded scanned_def,
      folded s2_def lowest_def index_def]
  consider (inf) "lowest = PInf"
    | (fin) m' it0 j where "lowest = Fin m'" "index = int it0" "it0 < q"
        "remaining s2 ! it0 = int j" "j < nc"
        "row_inv k nr nc cm r
          (s2\<lparr>SC := (SC s2)[j := True], remaining := (remaining s2)[it0 := remaining s2 ! (q - 1)]\<rparr>)"
        "if row4col s2 ! j = idx_cast k (- 1)
         then sink_post k nr nc cm r
                (s2\<lparr>SC := (SC s2)[j := True], remaining := (remaining s2)[it0 := remaining s2 ! (q - 1)]\<rparr>) j m'
         else \<exists>i'. row4col s2 ! j = int i' \<and>
                sink_inv k nr nc cm r
                  (s2\<lparr>SC := (SC s2)[j := True], remaining := (remaining s2)[it0 := remaining s2 ! (q - 1)]\<rparr>)
                  i' m' (q - 1)"
    by blast
  then show ?case
  proof cases
    case inf
    then show ?thesis unfolding unfold by (simp add: ceq_def)
  next
    case fin
    define s3 where "s3 = s2\<lparr>SC := (SC s2)[j := True],
        remaining := (remaining s2)[it0 := remaining s2 ! (q - 1)]\<rparr>"
    have nceq: "\<not> ceq lowest PInf" using fin(1) by (simp add: ceq_def)
    have offs: "off index = it0" "off (remaining s2 ! it0) = j"
      using fin(2,4) by simp_all
    have unfold': "find_sink k nc cm s (int i) (Fin m) q =
       (if row4col s2 ! j = idx_cast k (- 1) then (int j, Some (Fin m'), s3)
        else find_sink k nc cm s3 (row4col s2 ! j) (Fin m') (q - 1))"
      unfolding unfold s3_def using nceq fin(1,4) by (simp only: offs if_False off_int)
    show ?thesis
    proof (cases "row4col s2 ! j = idx_cast k (- 1)")
      case True
      with fin(6,7) show ?thesis unfolding unfold' s3_def[symmetric] by simp
    next
      case False
      with fin(7) obtain i' where i': "row4col s2 ! j = int i'"
        "sink_inv k nr nc cm r s3 i' m' (q - 1)"
        unfolding s3_def[symmetric] by auto
      have "q - 1 < q" using fin(3) by simp
      from less.IH[OF this fin(6)[folded s3_def] i'(2)] False i'(1)
      show ?thesis unfolding unfold' by simp
    qed
  qed
qed

lemma augmenting_path_correct:
  assumes valid: "\<forall>i<nr. \<forall>j<nc. ext (cell cm nc i j)" and r: "r < nr"
    and base: "row_inv k nr nc cm r s"
  shows "(\<exists>s'. augmenting_path k nc cm s (int r) = (idx_cast k (- 1), None, s')) \<or>
     (\<exists>j m' s'. augmenting_path k nc cm s (int r) = (int j, Some (Fin m'), s') \<and>
         row_inv k nr nc cm r s' \<and> sink_post k nr nc cm r s' j m')"
proof -
  have len: "ri_len nr nc s" using base by (simp add: row_inv_def)
  then have lens: "length (shortestPathCosts s) = nc" "length (SR s) = nr" "length (SC s) = nc"
    "length (remaining s) = nc" "length (path s) = nc"
    by (simp_all add: ri_len_def)
  define s0 where "s0 = s\<lparr>remaining := map (\<lambda>it. int nc - int it - 1) [0..<nc],
          SR := replicate nr False, SC := replicate nc False,
          shortestPathCosts := replicate nc PInf\<rparr>"
  have ap: "augmenting_path k nc cm s (int r) = find_sink k nc cm s0 (int r) (Fin 0) nc"
    unfolding augmenting_path_def s0_def by (simp add: remaining_fill lens)
  have base0: "row_inv k nr nc cm r s0"
    by (rule row_inv_frame[OF base]) (simp_all add: s0_def lens)
  have cols: "si_cols nc s0 nc"
    unfolding si_cols_def
  proof (intro exI[of _ "\<lambda>it. nc - 1 - it"] conjI allI impI)
    fix it assume "it < nc"
    then show "remaining s0 ! it = int (nc - 1 - it)" by (simp add: s0_def)
    show "nc - 1 - it < nc" using \<open>it < nc\<close> by simp
  next
    show "inj_on (\<lambda>it. nc - 1 - it) {..<nc}" by (auto simp: inj_on_def)
    show "(\<lambda>it. nc - 1 - it) ` {..<nc} = {j. j < nc \<and> \<not> SC s0 ! j}"
    proof (intro set_eqI iffI)
      fix j assume "j \<in> (\<lambda>it. nc - 1 - it) ` {..<nc}"
      then show "j \<in> {j. j < nc \<and> \<not> SC s0 ! j}" by (auto simp: s0_def)
    next
      fix j assume "j \<in> {j. j < nc \<and> \<not> SC s0 ! j}"
      then have j: "j < nc" by simp
      then have "j = nc - 1 - (nc - 1 - j)" "nc - 1 - j < nc" by simp_all
      then show "j \<in> (\<lambda>it. nc - 1 - it) ` {..<nc}" by blast
    qed
  qed
  have "sink_inv k nr nc cm r s0 r 0 nc"
    unfolding sink_inv_def
  proof (intro conjI)
    show "nc \<le> nc" by simp
    show "r < nr" by (rule r)
    show "\<not> SR s0 ! r" using r by (simp add: s0_def)
    show "si_cols nc s0 nc" by (rule cols)
    show "\<forall>j<nc. ext (shortestPathCosts s0 ! j)" by (simp add: s0_def)
    show "si_cur nr nc r s0 r 0" by (simp add: si_cur_def s0_def)
    show "si_scanned_cols nc r (s0\<lparr>SR := (SR s0)[r := True]\<rparr>) {}"
      by (simp add: si_scanned_cols_def s0_def)
    show "si_cost_le nc s0 0" by (simp add: si_cost_le_def s0_def)
    show "si_rows nr nc r s0" by (simp add: si_rows_def s0_def)
    show "si_cost_ge nc s0 0" by (simp add: si_cost_ge_def s0_def)
    show "si_relax nr nc cm r s0" by (simp add: si_relax_def s0_def)
    show "si_path nr nc cm r s0" by (simp add: si_path_def s0_def)
    show "\<exists>rk. rk r = nc - nc \<and> (\<forall>i'<nr. SR s0 ! i' \<longrightarrow> rk i' < nc - nc) \<and> si_rank nc s0 {} rk"
      by (intro exI[of _ "\<lambda>_. 0"]) (simp add: si_rank_def s0_def)
  qed
  from find_sink_correct[OF valid r base0 this] show ?thesis unfolding ap .
qed

lemma fold_u_spec:
  assumes "n \<le> length (u s1)"
  shows "fold (\<lambda>i t. if SR t ! i \<and> i \<noteq> r
                      then t\<lparr>u := (u t)[i := cadd (u t ! i)
                                (csub mv (shortestPathCosts t ! off (col4row t ! i)))]\<rparr>
                      else t) [0..<n] s1 =
         s1\<lparr>u := map (\<lambda>i. if i < n \<and> SR s1 ! i \<and> i \<noteq> r
                           then cadd (u s1 ! i) (csub mv (shortestPathCosts s1 ! off (col4row s1 ! i)))
                           else u s1 ! i) [0..<length (u s1)]\<rparr>"
  using assms
proof (induction n)
  case 0
  then show ?case by (simp add: map_nth)
next
  case (Suc n)
  then have n: "n < length (u s1)" by simp
  let ?w = "\<lambda>i. cadd (u s1 ! i) (csub mv (shortestPathCosts s1 ! off (col4row s1 ! i)))"
  let ?g = "\<lambda>n i. if i < n \<and> SR s1 ! i \<and> i \<noteq> r then ?w i else u s1 ! i"
  have upd: "(map (?g n) [0..<length (u s1)])[n := ?w n] = map (?g (Suc n)) [0..<length (u s1)]"
    if "SR s1 ! n" "n \<noteq> r"
    using that n by (intro nth_equalityI) (auto simp: nth_list_update less_Suc_eq)
  have same: "map (?g n) [0..<length (u s1)] = map (?g (Suc n)) [0..<length (u s1)]"
    if "\<not> (SR s1 ! n \<and> n \<noteq> r)"
    using that by (intro nth_equalityI) (auto simp: less_Suc_eq)
  show ?case
  proof (cases "SR s1 ! n \<and> n \<noteq> r")
    case True
    then show ?thesis using Suc.IH n upd by simp
  next
    case False
    then show ?thesis using Suc.IH n same by auto
  qed
qed

lemma fold_v_spec:
  assumes "n \<le> length (v s1)"
  shows "fold (\<lambda>j t. if SC t ! j
                 then t\<lparr>v := (v t)[j := csub (v t ! j) (csub mv (shortestPathCosts t ! j))]\<rparr>
                 else t) [0..<n] s1 =
         s1\<lparr>v := map (\<lambda>j. if j < n \<and> SC s1 ! j
                           then csub (v s1 ! j) (csub mv (shortestPathCosts s1 ! j))
                           else v s1 ! j) [0..<length (v s1)]\<rparr>"
  using assms
proof (induction n)
  case 0
  then show ?case by (simp add: map_nth)
next
  case (Suc n)
  then have n: "n < length (v s1)" by simp
  let ?w = "\<lambda>j. csub (v s1 ! j) (csub mv (shortestPathCosts s1 ! j))"
  let ?g = "\<lambda>n j. if j < n \<and> SC s1 ! j then ?w j else v s1 ! j"
  have upd: "(map (?g n) [0..<length (v s1)])[n := ?w n] = map (?g (Suc n)) [0..<length (v s1)]"
    if "SC s1 ! n"
    using that n by (intro nth_equalityI) (auto simp: nth_list_update less_Suc_eq)
  have same: "map (?g n) [0..<length (v s1)] = map (?g (Suc n)) [0..<length (v s1)]"
    if "\<not> SC s1 ! n"
    using that by (intro nth_equalityI) (auto simp: less_Suc_eq)
  show ?case
  proof (cases "SC s1 ! n")
    case True
    then show ?thesis using Suc.IH n upd by simp
  next
    case False
    then show ?thesis using Suc.IH n same by auto
  qed
qed

lemma update_duals_spec:
  fixes mv :: cost
  assumes "length (u s) = nr" "length (v s) = nc" "r < nr"
  defines "t \<equiv> update_duals nr nc r mv s"
  shows "shortestPathCosts t = shortestPathCosts s \<and> path t = path s \<and> col4row t = col4row s \<and>
         row4col t = row4col s \<and> SR t = SR s \<and> SC t = SC s \<and> remaining t = remaining s \<and>
         length (u t) = nr \<and> length (v t) = nc"
    and "\<forall>i<nr. u t ! i =
           (if i = r then cadd (u s ! r) mv
            else if SR s ! i then cadd (u s ! i) (csub mv (shortestPathCosts s ! off (col4row s ! i)))
            else u s ! i)"
    and "\<forall>j<nc. v t ! j =
           (if SC s ! j then csub (v s ! j) (csub mv (shortestPathCosts s ! j)) else v s ! j)"
proof -
  define s1 where "s1 = s\<lparr>u := (u s)[r := cadd (u s ! r) mv]\<rparr>"
  have l1: "nr \<le> length (u s1)" "nc \<le> length (v (s1\<lparr>u := x\<rparr>))" for x
    using assms(1,2) by (simp_all add: s1_def)
  have t: "t = s1\<lparr>u := map (\<lambda>i. if i < nr \<and> SR s1 ! i \<and> i \<noteq> r
                           then cadd (u s1 ! i) (csub mv (shortestPathCosts s1 ! off (col4row s1 ! i)))
                           else u s1 ! i) [0..<length (u s1)],
                  v := map (\<lambda>j. if j < nc \<and> SC s1 ! j
                           then csub (v s1 ! j) (csub mv (shortestPathCosts s1 ! j))
                           else v s1 ! j) [0..<length (v s1)]\<rparr>"
    unfolding t_def update_duals_def Let_def s1_def[symmetric]
    by (simp add: fold_u_spec[OF l1(1)] fold_v_spec[OF l1(2)])
  show "shortestPathCosts t = shortestPathCosts s \<and> path t = path s \<and> col4row t = col4row s \<and>
         row4col t = row4col s \<and> SR t = SR s \<and> SC t = SC s \<and> remaining t = remaining s \<and>
         length (u t) = nr \<and> length (v t) = nc"
    using assms(1,2) by (simp add: t s1_def)
  show "\<forall>i<nr. u t ! i =
           (if i = r then cadd (u s ! r) mv
            else if SR s ! i then cadd (u s ! i) (csub mv (shortestPathCosts s ! off (col4row s ! i)))
            else u s ! i)"
    using assms(1,3) by (simp add: t s1_def)
  show "\<forall>j<nc. v t ! j =
           (if SC s ! j then csub (v s ! j) (csub mv (shortestPathCosts s ! j)) else v s ! j)"
    using assms(2) by (simp add: t s1_def)
qed

lemma duals_inv:
  assumes fresh: "\<forall>i<nr. int i \<noteq> idx_cast k (- 1)" and r: "r < nr"
    and base: "row_inv k nr nc cm r s" and post: "sink_post k nr nc cm r s j m"
  defines "t \<equiv> update_duals nr nc r (Fin m) s"
  shows "walk_inv k nr nc cm r t j" and "\<exists>rk. \<forall>b. wi_rank nc t j rk b"
proof -
  have len: "ri_len nr nc s" using base by (simp add: row_inv_def)
  then have lens: "length (u s) = nr" "length (v s) = nc" "length (shortestPathCosts s) = nc"
    "length (path s) = nc" "length (col4row s) = nr" "length (row4col s) = nc"
    "length (SR s) = nr" "length (SC s) = nc" "length (remaining s) = nc"
    by (simp_all add: ri_len_def)
  note spec = update_duals_spec[OF lens(1,2) r, of "Fin m", folded t_def]
  have frame: "shortestPathCosts t = shortestPathCosts s" "path t = path s"
    "col4row t = col4row s" "row4col t = row4col s" "SR t = SR s" "SC t = SC s"
    "remaining t = remaining s" "length (u t) = nr" "length (v t) = nc"
    using spec(1) by simp_all
  have fin: "ri_fin nr nc s" using base by (simp add: row_inv_def)
  have rest: "ri_rest k nr r s" using base by (simp add: row_inv_def)
  have match: "ri_match k nc r s" using base by (simp add: row_inv_def)
  have feas: "ri_feas nc cm r s" using base by (simp add: row_inv_def)
  have tight: "ri_tight nc cm r s" using base by (simp add: row_inv_def)
  have j: "j < nc" and r4j: "row4col s ! j = idx_cast k (- 1)" and scj: "SC s ! j"
    and spj: "shortestPathCosts s ! j = Fin m" and srr: "SR s ! r"
    using post by (simp_all add: sink_post_def)
  have scols: "si_scanned_cols nc r s {j}" using post by (simp add: sink_post_def)
  have cle: "si_cost_le nc s m" using post by (simp add: sink_post_def)
  have rows: "si_rows nr nc r s" using post by (simp add: sink_post_def)
  have cge: "si_cost_ge nc s m" using post by (simp add: sink_post_def)
  have relax: "si_relax nr nc cm r s" using post by (simp add: sink_post_def)
  have pth: "si_path nr nc cm r s" using post by (simp add: sink_post_def)
  from post obtain rk where rk: "si_rank nc s {j} rk" unfolding sink_post_def by blast
  have ui: "u s ! i = Fin (val (u s ! i))" if "i < nr" for i
    using fin that by (intro isfin_val) (simp add: ri_fin_def)
  have vj: "v s ! j' = Fin (val (v s ! j'))" if "j' < nc" for j'
    using fin that by (intro isfin_val) (simp add: ri_fin_def)
  have sc: "\<exists>x. shortestPathCosts s ! j' = Fin x \<and> x \<le> m" if "j' < nc" "SC s ! j'" for j'
    using cle that unfolding si_cost_le_def by blast
  have srow: "i < r \<and> (\<exists>j'<nc. col4row s ! i = int j' \<and> SC s ! j' \<and>
                 row_dist r s i = val (shortestPathCosts s ! j'))"
    if "i < nr" "SR s ! i" "i \<noteq> r" for i
  proof -
    from rows that obtain j' where "i < r" "j' < nc" "col4row s ! i = int j'" "SC s ! j'"
      unfolding si_rows_def by blast
    with that(3) show ?thesis by (auto simp: row_dist_def)
  qed
  have U: "u t ! i = Fin (val (u s ! i) + (if SR s ! i then m - row_dist r s i else 0))"
    if i: "i < nr" for i
  proof (cases "i = r")
    case True
    with spec(2) i srr ui[OF i] show ?thesis
      by (simp add: row_dist_def) (metis cadd.simps(1))
  next
    case False
    show ?thesis
    proof (cases "SR s ! i")
      case True
      from srow[OF i True False] obtain j' where j': "j' < nc" "col4row s ! i = int j'"
        "SC s ! j'" "row_dist r s i = val (shortestPathCosts s ! j')" by blast
      from sc[OF j'(1,3)] obtain x where x: "shortestPathCosts s ! j' = Fin x" by blast
      have "u t ! i = cadd (u s ! i) (csub (Fin m) (shortestPathCosts s ! off (col4row s ! i)))"
        using spec(2) i False True by simp
      also have "\<dots> = cadd (Fin (val (u s ! i))) (csub (Fin m) (Fin x))"
        using ui[OF i] j'(2) x by simp
      also have "\<dots> = Fin (val (u s ! i) + (m - x))" by simp
      finally show ?thesis using True j'(4) x by simp
    next
      case nsr: False
      with spec(2) i False ui[OF i] show ?thesis by simp
    qed
  qed
  have V: "v t ! j' = Fin (val (v s ! j') - (if SC s ! j' then m - val (shortestPathCosts s ! j') else 0))"
    if j': "j' < nc" for j'
  proof (cases "SC s ! j'")
    case True
    from sc[OF j' True] obtain x where x: "shortestPathCosts s ! j' = Fin x" by blast
    have "v t ! j' = csub (v s ! j') (csub (Fin m) (shortestPathCosts s ! j'))"
      using spec(3) j' True by simp
    also have "\<dots> = csub (Fin (val (v s ! j'))) (csub (Fin m) (Fin x))"
      using vj[OF j'] x by simp
    also have "\<dots> = Fin (val (v s ! j') - (m - x))" by simp
    finally show ?thesis using True x by simp
  next
    case False
    with spec(3) j' vj[OF j'] show ?thesis by simp
  qed
  have row_le: "i \<le> r" if "i < nr" "SR s ! i" for i
    using srow[OF that] by (cases "i = r") auto
  have held: "SR s ! i" if "i < r" "j' < nc" "col4row s ! i = int j'" "SC s ! j'" for i j'
  proof -
    from match that(1) obtain j2 where "j2 < nc" "col4row s ! i = int j2" "row4col s ! j2 = int i"
      unfolding ri_match_def by blast
    with that(3) have r4: "row4col s ! j' = int i" by simp
    have "j' \<noteq> j"
    proof
      assume "j' = j"
      with r4 r4j have "int i = idx_cast k (- 1)" by simp
      with fresh that(1) r show False by simp
    qed
    with scols that(2,4) obtain i' where "row4col s ! j' = int i'" "SR s ! i'"
      unfolding si_scanned_cols_def by blast
    with r4 show ?thesis by simp
  qed
  have feas': "ri_feas nc cm (Suc r) t"
    unfolding ri_feas_def
  proof (intro allI impI)
    fix i j' c assume a: "i < Suc r" "j' < nc" "cell cm nc i j' = Fin c"
    then have i: "i < nr" using r by simp
    show "val (u t ! i) + val (v t ! j') \<le> c"
    proof (cases "SR s ! i")
      case True
      from relax i True a(2,3) obtain x where x: "shortestPathCosts s ! j' = Fin x"
        "x \<le> row_dist r s i + c - val (u s ! i) - val (v s ! j')"
        unfolding si_relax_def by blast
      show ?thesis
      proof (cases "SC s ! j'")
        case sc: True
        with U[OF i] V[OF a(2)] True x show ?thesis by simp
      next
        case False
        with cge a(2) x(1) have "m \<le> x" unfolding si_cost_ge_def by blast
        with U[OF i] V[OF a(2)] True False x show ?thesis by simp
      qed
    next
      case False
      with srr have "i \<noteq> r" by auto
      with a(1) have "i < r" by simp
      with feas a(2,3) have le: "val (u s ! i) + val (v s ! j') \<le> c"
        unfolding ri_feas_def by blast
      show ?thesis
      proof (cases "SC s ! j'")
        case True
        from sc[OF a(2) True] obtain x where "shortestPathCosts s ! j' = Fin x" "x \<le> m" by blast
        with U[OF i] V[OF a(2)] True False le show ?thesis by simp
      next
        case nsc: False
        with U[OF i] V[OF a(2)] False le show ?thesis by simp
      qed
    qed
  qed
  have tight': "ri_tight nc cm r t"
    unfolding ri_tight_def
  proof (intro allI impI)
    fix i j' assume a: "i < r" "j' < nc" "col4row t ! i = int j'"
    then have i: "i < nr" and c4: "col4row s ! i = int j'" using r by (simp_all add: frame)
    from tight a(1,2) c4 have old: "cell cm nc i j' = Fin (val (u s ! i) + val (v s ! j'))"
      unfolding ri_tight_def by blast
    show "cell cm nc i j' = Fin (val (u t ! i) + val (v t ! j'))"
    proof (cases "SR s ! i")
      case True
      from srow[OF i True] a(1) obtain j2 where "col4row s ! i = int j2" "SC s ! j2"
        "row_dist r s i = val (shortestPathCosts s ! j2)" by auto
      with c4 have "SC s ! j'" "row_dist r s i = val (shortestPathCosts s ! j')" by simp_all
      with U[OF i] V[OF a(2)] True old show ?thesis by simp
    next
      case False
      with held[OF a(1,2) c4] have "\<not> SC s ! j'" by blast
      with U[OF i] V[OF a(2)] False old show ?thesis by simp
    qed
  qed
  have tree': "wi_tree nc cm r t"
    unfolding wi_tree_def
  proof (intro allI impI)
    fix j' assume a: "j' < nc" "SC t ! j'"
    then have scj': "SC s ! j'" by (simp add: frame)
    from sc[OF a(1) scj'] obtain x where x: "shortestPathCosts s ! j' = Fin x" by blast
    with pth a(1) obtain i' c where i': "i' < nr" "SR s ! i'" "path s ! j' = int i'"
      "cell cm nc i' j' = Fin c" "x = row_dist r s i' + c - val (u s ! i') - val (v s ! j')"
      unfolding si_path_def by blast
    have "c = val (u t ! i') + val (v t ! j')"
      using U[OF i'(1)] V[OF a(1)] i'(2,5) scj' x by simp
    with i' row_le[OF i'(1,2)] show "\<exists>i'\<le>r. path t ! j' = int i' \<and> SR t ! i' \<and>
        cell cm nc i' j' = Fin (val (u t ! i') + val (v t ! j'))"
      by (auto simp: frame)
  qed
  have rest': "wi_rest k nr r t"
    unfolding wi_rest_def
  proof (intro conjI allI impI)
    fix i assume a: "i < nr" "r < i"
    with rest have old: "u s ! i = Fin 0" "col4row s ! i = idx_cast k (- 1)"
      unfolding ri_rest_def by auto
    have "\<not> SR s ! i" using row_le[OF a(1)] a(2) by auto
    with U[OF a(1)] old show "u t ! i = Fin 0" by simp
    show "col4row t ! i = idx_cast k (- 1)" using old by (simp add: frame)
  next
    from rest r show "col4row t ! r = idx_cast k (- 1)"
      unfolding ri_rest_def by (simp add: frame)
  qed
  have match': "wi_match k nc r t j"
    unfolding wi_match_def
  proof (intro conjI allI impI)
    fix i assume i: "i < r"
    with match obtain j' where j': "j' < nc" "col4row s ! i = int j'" "row4col s ! j' = int i"
      unfolding ri_match_def by blast
    have "j' \<noteq> j"
    proof
      assume "j' = j"
      with j'(3) r4j have "int i = idx_cast k (- 1)" by simp
      with fresh i r show False by simp
    qed
    with j' show "\<exists>j'<nc. j' \<noteq> j \<and> col4row t ! i = int j' \<and> row4col t ! j' = int i"
      by (auto simp: frame)
  next
    fix j' assume "j' < nc" "j' \<noteq> j"
    with match show "row4col t ! j' = idx_cast k (- 1) \<or>
        (\<exists>i<r. row4col t ! j' = int i \<and> col4row t ! i = int j')"
      unfolding ri_match_def by (simp add: frame)
  qed
  have rows': "wi_rows nc r t"
    unfolding wi_rows_def
  proof (intro allI impI)
    fix i' assume a: "i' < r" "SR t ! i'"
    then have "i' < nr" "SR s ! i'" "i' \<noteq> r" using r by (simp_all add: frame)
    from srow[OF this] show "\<exists>j'<nc. col4row t ! i' = int j' \<and> SC t ! j'"
      by (auto simp: frame)
  qed
  have fin': "ri_fin nr nc t"
    unfolding ri_fin_def using U V by simp
  have len': "ri_len nr nc t"
    unfolding ri_len_def using lens by (simp add: frame)
  show "walk_inv k nr nc cm r t j"
    unfolding walk_inv_def
    using len' fin' rest' j scj match' feas' tight' tree' rows' by (simp add: frame)
  have "wi_rank nc t j rk b" for b
    using rk unfolding wi_rank_def si_rank_def by (simp add: frame)
  then show "\<exists>rk. \<forall>b. wi_rank nc t j rk b" by blast
qed

lemma walk:
  assumes r: "r < nr"
  shows "walk_inv k nr nc cm r s j \<Longrightarrow> path s ! j = int i0 \<Longrightarrow> wi_rank nc s j rk (rk i0) \<Longrightarrow>
         \<exists>s'. augment r s (int j) = Some s' \<and> row_inv k nr nc cm (Suc r) s'"
proof (induction "rk i0" arbitrary: s j i0 rule: less_induct)
  case less
  note inv = less.prems(1) and pj = less.prems(2) and rank = less.prems(3)
  have len: "ri_len nr nc s" using inv by (simp add: walk_inv_def)
  then have lens: "length (u s) = nr" "length (v s) = nc" "length (shortestPathCosts s) = nc"
    "length (path s) = nc" "length (col4row s) = nr" "length (row4col s) = nc"
    "length (SR s) = nr" "length (SC s) = nc" "length (remaining s) = nc"
    by (simp_all add: ri_len_def)
  have fin: "ri_fin nr nc s" using inv by (simp add: walk_inv_def)
  have rest: "wi_rest k nr r s" using inv by (simp add: walk_inv_def)
  have j: "j < nc" and scj: "SC s ! j" using inv by (simp_all add: walk_inv_def)
  have match: "wi_match k nc r s j" using inv by (simp add: walk_inv_def)
  have feas: "ri_feas nc cm (Suc r) s" using inv by (simp add: walk_inv_def)
  have tight: "ri_tight nc cm r s" using inv by (simp add: walk_inv_def)
  have tree: "wi_tree nc cm r s" using inv by (simp add: walk_inv_def)
  have rows: "wi_rows nc r s" using inv by (simp add: walk_inv_def)
  from tree j scj pj have i0: "i0 \<le> r" "SR s ! i0"
    "cell cm nc i0 j = Fin (val (u s ! i0) + val (v s ! j))"
    unfolding wi_tree_def by auto
  have i0nr: "i0 < nr" using i0(1) r by simp
  define s' where "s' = s\<lparr>row4col := (row4col s)[j := int i0], col4row := (col4row s)[i0 := int j]\<rparr>"
  have step: "augment r s (int j) = (if i0 = r then Some s' else augment r s' (col4row s ! i0))"
    by (subst augment.simps) (simp add: s'_def pj)
  have f': "u s' = u s" "v s' = v s" "shortestPathCosts s' = shortestPathCosts s" "path s' = path s"
    "SR s' = SR s" "SC s' = SC s" "remaining s' = remaining s"
    by (simp_all add: s'_def)
  have c4: "col4row s' ! i = (if i = i0 then int j else col4row s ! i)" if "i < nr" for i
    using that lens(5) by (simp add: s'_def nth_list_update)
  have r4: "row4col s' ! j' = (if j' = j then int i0 else row4col s ! j')" if "j' < nc" for j'
    using that lens(6) by (simp add: s'_def nth_list_update)
  have len': "ri_len nr nc s'" using lens by (simp add: ri_len_def s'_def)
  have fin': "ri_fin nr nc s'" using fin by (simp add: ri_fin_def f')
  have feas': "ri_feas nc cm (Suc r) s'" using feas by (simp add: ri_feas_def f')
  show ?case
  proof (cases "i0 = r")
    case True
    have rest': "ri_rest k nr (Suc r) s'"
      unfolding ri_rest_def
    proof (intro allI impI)
      fix i assume a: "i < nr" "Suc r \<le> i"
      then have "r < i" "i \<noteq> i0" using True by simp_all
      with rest a(1) c4[OF a(1)] show "u s' ! i = Fin 0 \<and> col4row s' ! i = idx_cast k (- 1)"
        unfolding wi_rest_def by (simp add: f')
    qed
    have match': "ri_match k nc (Suc r) s'"
      unfolding ri_match_def
    proof (intro conjI allI impI)
      fix i assume i: "i < Suc r"
      show "\<exists>j'<nc. col4row s' ! i = int j' \<and> row4col s' ! j' = int i"
      proof (cases "i = r")
        case ir: True
        with c4[OF r] r4[OF j] j True show ?thesis by auto
      next
        case False
        with i have ilt: "i < r" by simp
        with match obtain j' where j': "j' < nc" "j' \<noteq> j" "col4row s ! i = int j'"
          "row4col s ! j' = int i"
          unfolding wi_match_def by blast
        have "i < nr" using ilt r by simp
        from c4[OF this] r4[OF j'(1)] j' False True show ?thesis by auto
      qed
    next
      fix j' assume j': "j' < nc"
      show "row4col s' ! j' = idx_cast k (- 1) \<or>
          (\<exists>i<Suc r. row4col s' ! j' = int i \<and> col4row s' ! i = int j')"
      proof (cases "j' = j")
        case jj: True
        with c4[OF r] r4[OF j] True show ?thesis by auto
      next
        case False
        with match j' consider "row4col s ! j' = idx_cast k (- 1)"
          | i where "i < r" "row4col s ! j' = int i" "col4row s ! i = int j'"
          unfolding wi_match_def by blast
        then show ?thesis
        proof cases
          case 1
          with r4[OF j'] False show ?thesis by simp
        next
          case 2
          then have "i < nr" "i \<noteq> i0" using r True by simp_all
          with c4[of i] r4[OF j'] False 2 show ?thesis by auto
        qed
      qed
    qed
    have tight': "ri_tight nc cm (Suc r) s'"
      unfolding ri_tight_def
    proof (intro allI impI)
      fix i j' assume a: "i < Suc r" "j' < nc" "col4row s' ! i = int j'"
      then have inr: "i < nr" using r by simp
      show "cell cm nc i j' = Fin (val (u s' ! i) + val (v s' ! j'))"
      proof (cases "i = i0")
        case ii: True
        with c4[OF inr] a(3) have "j' = j" by simp
        with i0(3) ii show ?thesis by (simp add: f')
      next
        case False
        with a(1) True have "i < r" by simp
        moreover from c4[OF inr] False a(3) have "col4row s ! i = int j'" by simp
        ultimately show ?thesis using tight a(2) unfolding ri_tight_def by (simp add: f')
      qed
    qed
    have "row_inv k nr nc cm (Suc r) s'"
      unfolding row_inv_def using len' fin' rest' match' feas' tight' by simp
    with step True show ?thesis by simp
  next
    case False
    with i0(1) have ilt: "i0 < r" by simp
    with match obtain j2 where j2: "j2 < nc" "j2 \<noteq> j" "col4row s ! i0 = int j2"
      "row4col s ! j2 = int i0"
      unfolding wi_match_def by blast
    from rows ilt i0(2) j2(3) have scj2: "SC s ! j2" unfolding wi_rows_def by auto
    with tree j2(1) obtain i1 where i1: "i1 \<le> r" "path s ! j2 = int i1"
      unfolding wi_tree_def by blast
    from rank j2(1,2) scj2 i1(2) j2(4) have lt: "rk i1 < rk i0"
      unfolding wi_rank_def by blast
    have rest': "wi_rest k nr r s'"
      unfolding wi_rest_def
    proof (intro conjI allI impI)
      fix i assume a: "i < nr" "r < i"
      then have "i \<noteq> i0" using ilt by simp
      with rest a c4[OF a(1)] show "u s' ! i = Fin 0" "col4row s' ! i = idx_cast k (- 1)"
        unfolding wi_rest_def by (simp_all add: f')
    next
      from rest c4[OF r] False show "col4row s' ! r = idx_cast k (- 1)"
        unfolding wi_rest_def by auto
    qed
    have match': "wi_match k nc r s' j2"
      unfolding wi_match_def
    proof (intro conjI allI impI)
      fix i assume i: "i < r"
      then have inr: "i < nr" using r by simp
      show "\<exists>j'<nc. j' \<noteq> j2 \<and> col4row s' ! i = int j' \<and> row4col s' ! j' = int i"
      proof (cases "i = i0")
        case True
        with c4[OF inr] r4[OF j] j j2(2) show ?thesis by auto
      next
        case ne: False
        from match i obtain j' where j': "j' < nc" "j' \<noteq> j" "col4row s ! i = int j'"
          "row4col s ! j' = int i"
          unfolding wi_match_def by blast
        with j2(4) ne have "j' \<noteq> j2" by auto
        with c4[OF inr] r4[OF j'(1)] j' ne show ?thesis by auto
      qed
    next
      fix j' assume j': "j' < nc" "j' \<noteq> j2"
      show "row4col s' ! j' = idx_cast k (- 1) \<or>
          (\<exists>i<r. row4col s' ! j' = int i \<and> col4row s' ! i = int j')"
      proof (cases "j' = j")
        case True
        with c4[OF i0nr] r4[OF j] ilt show ?thesis by auto
      next
        case ne: False
        with match j'(1) consider "row4col s ! j' = idx_cast k (- 1)"
          | i where "i < r" "row4col s ! j' = int i" "col4row s ! i = int j'"
          unfolding wi_match_def by blast
        then show ?thesis
        proof cases
          case 1
          with r4[OF j'(1)] ne show ?thesis by simp
        next
          case 2
          with j2(3) j'(2) have "i \<noteq> i0" by auto
          moreover have "i < nr" using 2(1) r by simp
          ultimately show ?thesis using c4[of i] r4[OF j'(1)] ne 2 by auto
        qed
      qed
    qed
    have tight': "ri_tight nc cm r s'"
      unfolding ri_tight_def
    proof (intro allI impI)
      fix i j' assume a: "i < r" "j' < nc" "col4row s' ! i = int j'"
      then have inr: "i < nr" using r by simp
      show "cell cm nc i j' = Fin (val (u s' ! i) + val (v s' ! j'))"
      proof (cases "i = i0")
        case True
        with c4[OF inr] a(3) have "j' = j" by simp
        with i0(3) True show ?thesis by (simp add: f')
      next
        case ne: False
        from c4[OF inr] ne a(3) have "col4row s ! i = int j'" by simp
        with tight a(1,2) show ?thesis unfolding ri_tight_def by (simp add: f')
      qed
    qed
    have tree': "wi_tree nc cm r s'"
      using tree unfolding wi_tree_def by (simp add: f')
    have rows': "wi_rows nc r s'"
      unfolding wi_rows_def
    proof (intro allI impI)
      fix i' assume a: "i' < r" "SR s' ! i'"
      then have inr: "i' < nr" using r by simp
      show "\<exists>j'<nc. col4row s' ! i' = int j' \<and> SC s' ! j'"
      proof (cases "i' = i0")
        case True
        with c4[OF inr] j scj show ?thesis by (auto simp: f')
      next
        case ne: False
        from rows a obtain j' where "j' < nc" "col4row s ! i' = int j'" "SC s ! j'"
          unfolding wi_rows_def by (auto simp: f')
        with c4[OF inr] ne show ?thesis by (auto simp: f')
      qed
    qed
    have inv': "walk_inv k nr nc cm r s' j2"
      unfolding walk_inv_def
      using len' fin' rest' j2(1) scj2 match' feas' tight' tree' rows' by (simp add: f')
    have rank': "wi_rank nc s' j2 rk (rk i1)"
      unfolding wi_rank_def
    proof (intro allI impI)
      fix j' i' i'' assume a: "j' < nc" "SC s' ! j'" "j' \<noteq> j2" "path s' ! j' = int i'"
        "row4col s' ! j' = int i''" "rk i'' \<le> rk i1"
      show "rk i' < rk i''"
      proof (cases "j' = j")
        case True
        with r4[OF j] a(5) have "i'' = i0" by simp
        with a(6) lt show ?thesis by simp
      next
        case ne: False
        with r4[OF a(1)] a(5) have "row4col s ! j' = int i''" by simp
        moreover have "rk i'' \<le> rk i0" using a(6) lt by simp
        ultimately show ?thesis using rank a(1,2,4) ne unfolding wi_rank_def by (simp add: f')
      qed
    qed
    have "path s' ! j2 = int i1" using i1(2) by (simp add: f')
    from less.hyps[OF lt inv' this rank'] step False j2(3) show ?thesis by simp
  qed
qed

lemma idx_neg_int: "\<not> idx_neg k (int j)"
  by (cases k) simp_all

lemma row_step:
  assumes valid: "\<forall>i<nr. \<forall>j<nc. ext (cell cm nc i j)"
    and fresh: "\<forall>i<nr. int i \<noteq> idx_cast k (- 1)" and r: "r < nr"
    and base: "row_inv k nr nc cm r s"
  shows "(\<exists>s'. augmenting_path k nc cm s (int r) = (idx_cast k (- 1), None, s')) \<or>
     (\<exists>j m' s1 s'. augmenting_path k nc cm s (int r) = (int j, Some (Fin m'), s1) \<and>
         augment r (update_duals nr nc r (Fin m') s1) (int j) = Some s' \<and>
         row_inv k nr nc cm (Suc r) s')"
proof -
  from augmenting_path_correct[OF valid r base]
  consider (none) s' where "augmenting_path k nc cm s (int r) = (idx_cast k (- 1), None, s')"
    | (sink) j m' s1 where "augmenting_path k nc cm s (int r) = (int j, Some (Fin m'), s1)"
        "row_inv k nr nc cm r s1" "sink_post k nr nc cm r s1 j m'"
    by blast
  then show ?thesis
  proof cases
    case none
    then show ?thesis by blast
  next
    case sink
    define t where "t = update_duals nr nc r (Fin m') s1"
    from duals_inv[OF fresh r sink(2,3), folded t_def]
    obtain rk where inv: "walk_inv k nr nc cm r t j" and rank: "\<And>b. wi_rank nc t j rk b"
      by blast
    from inv have "j < nc" "SC t ! j" "wi_tree nc cm r t" by (simp_all add: walk_inv_def)
    then obtain i0 where "path t ! j = int i0" unfolding wi_tree_def by blast
    from walk[OF r inv this rank] obtain s' where
      "augment r t (int j) = Some s'" "row_inv k nr nc cm (Suc r) s'" by blast
    with sink(1) show ?thesis unfolding t_def by blast
  qed
qed

lemma match_rows_correct:
  assumes valid: "\<forall>i<nr. \<forall>j<nc. ext (cell cm nc i j)"
    and fresh: "\<forall>i<nr. int i \<noteq> idx_cast k (- 1)"
  shows "r \<le> nr \<Longrightarrow> row_inv k nr nc cm r s \<Longrightarrow>
     \<exists>res. match_rows k nr nc cm [r..<nr] s = Some res \<and>
           (\<forall>s'. res = Matched s' \<longrightarrow> row_inv k nr nc cm nr s')"
proof (induction "nr - r" arbitrary: r s)
  case 0
  then have "r = nr" by simp
  with 0 show ?case by simp
next
  case (Suc n)
  then have r: "r < nr" by simp
  then have rows: "[r..<nr] = r # [Suc r..<nr]" by (rule upt_conv_Cons)
  from row_step[OF valid fresh r Suc.prems(2)]
  consider (none) s' where "augmenting_path k nc cm s (int r) = (idx_cast k (- 1), None, s')"
    | (sink) j m' s1 s' where "augmenting_path k nc cm s (int r) = (int j, Some (Fin m'), s1)"
        "augment r (update_duals nr nc r (Fin m') s1) (int j) = Some s'"
        "row_inv k nr nc cm (Suc r) s'"
    by blast
  then show ?case
  proof cases
    case none
    then show ?thesis unfolding rows by (cases "idx_neg k (idx_cast k (- 1))") simp_all
  next
    case sink
    have "n = nr - Suc r" "Suc r \<le> nr" using Suc.hyps(2) r by simp_all
    from Suc.hyps(1)[OF this sink(3)] sink(1,2) show ?thesis
      unfolding rows by (simp add: idx_neg_int)
  qed
qed

lemma initial_row_inv: "row_inv k nr nc cm 0 (initial_sap k nr nc)"
  by (simp add: row_inv_def ri_len_def ri_fin_def ri_rest_def ri_match_def ri_feas_def
      ri_tight_def initial_sap_def)

lemma row_inv_certifies:
  assumes valid: "\<forall>i<nr. \<forall>j<nc. ext (cell cm nc i j)" and inv: "row_inv k nr nc cm nr s"
  shows "duals_certify nr nc cm s"
proof -
  have fin: "ri_fin nr nc s" using inv by (simp add: row_inv_def)
  have match: "ri_match k nc nr s" using inv by (simp add: row_inv_def)
  have feas: "ri_feas nc cm nr s" using inv by (simp add: row_inv_def)
  have tight: "ri_tight nc cm nr s" using inv by (simp add: row_inv_def)
  have uv: "cadd (u s ! i) (v s ! j) = Fin (val (u s ! i) + val (v s ! j))"
    if "i < nr" "j < nc" for i j
  proof -
    from fin that have "u s ! i = Fin (val (u s ! i))" "v s ! j = Fin (val (v s ! j))"
      by (simp_all add: ri_fin_def isfin_val)
    then show ?thesis by (metis cadd.simps(1))
  qed
  have ge: "cge (cm ! (i * nc + j)) (cadd (u s ! i) (v s ! j))" if "i < nr" "j < nc" for i j
  proof -
    from valid that have "ext (cell cm nc i j)" by simp
    then show ?thesis
    proof (rule ext_cases)
      fix c assume c: "cell cm nc i j = Fin c"
      with feas that have "val (u s ! i) + val (v s ! j) \<le> c" unfolding ri_feas_def by blast
      with c uv[OF that] show ?thesis
        by (auto simp: cell_def cge_def cle_def ceq_def)
    next
      assume "cell cm nc i j = PInf"
      with uv[OF that] show ?thesis by (simp add: cell_def cge_def cle_def)
    qed
  qed
  have eq: "ceq (cm ! (i * nc + j)) (cadd (u s ! i) (v s ! j))"
    if "i < nr" "j < nc" "col4row s ! i = int j" for i j
    using tight that uv[OF that(1,2)] unfolding ri_tight_def by (simp add: cell_def ceq_def)
  have "\<forall>i<nr. \<exists>j<nc. col4row s ! i = int j"
    using match unfolding ri_match_def by blast
  with ge eq show ?thesis unfolding duals_certify_def by blast
qed

lemma small_index_fresh:
  assumes "n < 2 ^ 31" "i < n"
  shows "int i \<noteq> idx_cast k (- 1)"
proof (cases k)
  case Idx_int
  then show ?thesis by simp
next
  case Idx_size_t
  have "i < 2 ^ 31" using assms(2,1) by (rule less_trans)
  then have "int i < int (2 ^ 31)" by (simp only: of_nat_less_iff)
  then have "int i \<noteq> 2 ^ 64 - 1" by simp
  then show ?thesis using Idx_size_t by simp
qed

text \<open>
  In exact arithmetic a call on a non-empty matrix always returns: the search visits each
  column at most once, and the walk back from the sink follows the order in which the rows
  were scanned.
\<close>

lemma crouse_returns:
  assumes "nr \<noteq> 0" "nc \<noteq> 0" "nr * nc < 2 ^ 31"
  shows "\<exists>res. solve_rectangular_linear_assignment k nr nc costMatrix maximize a b = Some res"
proof -
  define cm where "cm = working_matrix nr nc costMatrix maximize"
  define n where "n = min nr nc"
  define m where "m = max nr nc"
  have nm: "n * m = nr * nc" unfolding n_def m_def by (cases "nr \<le> nc") (simp_all add: min_def max_def)
  have m0: "0 < m" using assms(1,2) by (simp add: m_def)
  note sol = solve_nonempty[OF assms(1,2) idx_fits_small[OF assms(3)],
      where k = k and costMatrix = costMatrix and maximize = maximize and a = a and b = b,
      folded cm_def n_def m_def]
  show ?thesis
  proof (cases "has_invalid_entry (nr * nc) cm")
    case True
    then show ?thesis unfolding sol by simp
  next
    case ok: False
    have valid: "\<forall>i<n. \<forall>j<m. ext (cell cm m i j)"
    proof (intro allI impI)
      fix i j assume ij: "i < n" "j < m"
      have "i * m + j < i * m + m" using ij by simp
      also have "\<dots> = Suc i * m" by simp
      also have "\<dots> \<le> n * m" using ij(1) by (intro mult_le_mono1) simp
      finally have "i * m + j < nr * nc" by (simp add: nm)
      with ok show "ext (cell cm m i j)"
        by (auto simp: has_invalid_entry_iff ext_def cell_def)
    qed
    have "n \<le> n * m" using m0 by simp
    then have "n \<le> nr * nc" by (simp add: nm)
    with assms(3) have "n < 2 ^ 31" by simp
    then have fresh: "\<forall>i<n. int i \<noteq> idx_cast k (- 1)"
      using small_index_fresh by blast
    from match_rows_correct[OF valid fresh le0 initial_row_inv]
    obtain res where "match_rows k n m cm [0..<n] (initial_sap k n m) = Some res" by blast
    then show ?thesis unfolding sol using ok
      by (simp add: finish_def split: rows_result.splits)
  qed
qed

text \<open>
  In exact arithmetic, when a call on a non-empty matrix (with \<open>nr * nc\<close> in the range of a
  32-bit \<^verbatim>\<open>int\<close>) returns 0, the row loop has ended with vectors \<open>u\<close>, \<open>v\<close> and \<open>col4row\<close> that
  certify the assignment on the matrix the solver worked on: \<^verbatim>\<open>cost[i][j] >= u[i] + v[j]\<close> for
  every pair, every row holds a column, and \<^verbatim>\<open>cost[i][j] == u[i] + v[j]\<close> for every matched
  pair.
\<close>

lemma crouse_duals_exact:
  assumes "nr \<noteq> 0" "nc \<noteq> 0" "nr * nc < 2 ^ 31"
    and "solve_rectangular_linear_assignment k nr nc costMatrix maximize a b =
           Some (Returns 0 a' b')"
  shows "\<exists>s. match_rows k (min nr nc) (max nr nc) (working_matrix nr nc costMatrix maximize)
               [0..<min nr nc] (initial_sap k (min nr nc) (max nr nc)) = Some (Matched s) \<and>
             duals_certify (min nr nc) (max nr nc) (working_matrix nr nc costMatrix maximize) s"
proof -
  define cm where "cm = working_matrix nr nc costMatrix maximize"
  define n where "n = min nr nc"
  define m where "m = max nr nc"
  have nm: "n * m = nr * nc" unfolding n_def m_def by (cases "nr \<le> nc") (simp_all add: min_def max_def)
  have m0: "0 < m" and n0: "0 < n" using assms(1,2) by (simp_all add: m_def n_def)
  note sol = assms(4)[unfolded solve_nonempty[OF assms(1,2) idx_fits_small[OF assms(3)]],
      folded cm_def n_def m_def]
  have ok: "\<not> has_invalid_entry (nr * nc) cm"
  proof
    assume "has_invalid_entry (nr * nc) cm"
    with sol have "idx_cast k RECTANGULAR_LSAP_INVALID = 0" by simp
    with idx_cast_codes(3) show False by blast
  qed
  have valid: "\<forall>i<n. \<forall>j<m. ext (cell cm m i j)"
  proof (intro allI impI)
    fix i j assume ij: "i < n" "j < m"
    have "i * m + j < i * m + m" using ij by simp
    also have "\<dots> = Suc i * m" by simp
    also have "\<dots> \<le> n * m" using ij(1) by (intro mult_le_mono1) simp
    finally have "i * m + j < nr * nc" by (simp add: nm)
    with ok show "ext (cell cm m i j)"
      by (auto simp: has_invalid_entry_iff ext_def cell_def)
  qed
  have "n \<le> n * m" using m0 by simp
  then have "n \<le> nr * nc" by (simp add: nm)
  with assms(3) have "n < 2 ^ 31" by simp
  then have fresh: "\<forall>i<n. int i \<noteq> idx_cast k (- 1)"
    using small_index_fresh by blast
  from match_rows_correct[OF valid fresh le0 initial_row_inv]
  obtain res where res: "match_rows k n m cm [0..<n] (initial_sap k n m) = Some res"
    "\<And>s'. res = Matched s' \<Longrightarrow> row_inv k n m cm n s'"
    by blast
  from sol ok res(1) obtain s where s: "res = Matched s"
    using idx_cast_codes(2)
    by (auto dest!: finish_Returns match_rows_Failed)
  from row_inv_certifies[OF valid res(2)[OF s]] res(1) s
  show ?thesis unfolding cm_def n_def m_def by simp
qed

section \<open>The Jonker-Volgenant solver on a matrix of one row\<close>

text \<open>
  On a matrix of one row the augmenting row reduction assigns the row in its first pass and
  nothing else runs. With \<^verbatim>\<open>v\<close> zero on entry the reduced costs that \<^verbatim>\<open>find_umins\<close> compares are
  the entries themselves, and the returned total is \<open>0 + cost[0][j1]\<close>: nothing that reaches the
  result is rounded.
\<close>

lemma rd_nth [simp]: "i < length xs \<Longrightarrow> rd xs (int i) = Some (xs ! i)"
  by (simp add: rd_def)

lemma rd_0 [simp]: "xs \<noteq> [] \<Longrightarrow> rd xs 0 = Some (xs ! 0)"
  by (simp add: rd_def)

lemma wr_nth [simp]: "i < length xs \<Longrightarrow> wr xs (int i) x = Some (xs[i := x])"
  by (simp add: wr_def)

lemma wr_0 [simp]: "xs \<noteq> [] \<Longrightarrow> wr xs 0 x = Some (xs[0 := x])"
  by (simp add: wr_def)

lemma int32_0 [simp]: "int32 0 = Some 0"
  by (simp add: int32_def)

lemma fold_opt_Nil [simp]: "fold_opt f [] a = Some a"
  by (simp add: fold_opt_def)








end
